theory Spec2Isabelle
  imports Main
begin

section \<open>Integer vectors and the rotation matrices\<close>

text \<open>
  The solver of \<open>blocks.py\<close> works on numpy integer arrays. An offset, an anchor and a
  cell coordinate are arrays of three integers; \<open>Rx\<close>, \<open>Ry\<close> and \<open>Rz\<close> are 3x3 integer
  arrays given by their rows. A block's \<open>coords\<close> is the 3xn array whose n columns are the
  block's offsets: it is represented by the list of its columns, so that \<open>M @ coords\<close>
  multiplies every column by \<open>M\<close>. The sums and products below are those of the
  integers. numpy computes them on 64-bit integers and wraps around; the section on
  numpy's integers says where the two agree, and the statements that depend on the
  arithmetic assume that no sum or product leaves the 64-bit range.
\<close>

type_synonym vec = "int \<times> int \<times> int"
type_synonym mat = "vec \<times> vec \<times> vec"

fun dot :: "vec \<Rightarrow> vec \<Rightarrow> int" where
  "dot (a, b, c) (x, y, z) = a * x + b * y + c * z"

fun matvec :: "mat \<Rightarrow> vec \<Rightarrow> vec" where
  "matvec (r1, r2, r3) v = (dot r1 v, dot r2 v, dot r3 v)"

definition matmul :: "mat \<Rightarrow> vec list \<Rightarrow> vec list" where
  "matmul M cs = map (matvec M) cs"

fun vadd :: "vec \<Rightarrow> vec \<Rightarrow> vec" where
  "vadd (a, b, c) (x, y, z) = (a + x, b + y, c + z)"

definition Rx :: mat where
  "Rx = (( 1, 0, 0),
         ( 0, 0,-1),
         ( 0, 1, 0))"

definition Ry :: mat where
  "Ry = (( 0, 0, 1),
         ( 0, 1, 0),
         (-1, 0, 0))"

definition Rz :: mat where
  "Rz = (( 0,-1, 0),
         ( 1, 0, 0),
         ( 0, 0, 1))"

text \<open>Matrix algebra used to speak about the rotations: product, transpose, determinant.\<close>

definition I3 :: mat where
  "I3 = ((1, 0, 0), (0, 1, 0), (0, 0, 1))"

fun transpose3 :: "mat \<Rightarrow> mat" where
  "transpose3 ((a, b, c), (d, e, f), (g, h, i)) = ((a, d, g), (b, e, h), (c, f, i))"

fun matmat :: "mat \<Rightarrow> mat \<Rightarrow> mat" where
  "matmat (r1, r2, r3) B =
     (case transpose3 B of (c1, c2, c3) \<Rightarrow>
        ((dot r1 c1, dot r1 c2, dot r1 c3),
         (dot r2 c1, dot r2 c2, dot r2 c3),
         (dot r3 c1, dot r3 c2, dot r3 c3)))"

fun det3 :: "mat \<Rightarrow> int" where
  "det3 ((a, b, c), (d, e, f), (g, h, i)) =
     a * (e * i - f * h) - b * (d * i - f * g) + c * (d * h - e * g)"

definition orthogonal :: "mat \<Rightarrow> bool" where
  "orthogonal M = (matmat M (transpose3 M) = I3)"

definition proper_rotation :: "mat \<Rightarrow> bool" where
  "proper_rotation M = (orthogonal M \<and> det3 M = 1)"

section \<open>Block\<close>

record block =
  coord_len :: nat
  coords :: "vec list"
  origin :: vec
  direction :: vec
  name :: string

definition Block :: "vec list \<Rightarrow> string \<Rightarrow> block" where
  "Block cs nm =
     \<lparr>coord_len = length cs, coords = cs, origin = (0, 0, 0), direction = (1, 0, 0),
      name = nm\<rparr>"

text \<open>
  A block is built from a list of at least one offset. From an empty list numpy builds
  an array that is not 3xn, on which the matrix product of \<open>roll\<close> and \<open>turn\<close>
  raises a \<open>ValueError\<close>; the model leaves that case out, and what is proved about
  the generator and about \<open>solve\<close> is stated for blocks that have offsets.
\<close>

definition has_offsets :: "block \<Rightarrow> bool" where
  "has_offsets b = (coords b \<noteq> [])"

definition set_origin :: "block \<Rightarrow> vec \<Rightarrow> block" where
  "set_origin b origin_coords = b\<lparr>origin := origin_coords\<rparr>"

definition roll :: "block \<Rightarrow> block" where
  "roll b = b\<lparr>coords := matmul Rx (coords b), direction := matvec Rx (direction b)\<rparr>"

definition turn :: "block \<Rightarrow> block" where
  "turn b = b\<lparr>coords := matmul Rz (coords b), direction := matvec Rz (direction b)\<rparr>"

subsection \<open>numpy's 64-bit integers\<close>

text \<open>
  The entries of a numpy integer array are 64-bit values, and \<open>+\<close> and \<open>@\<close> on such
  arrays reduce every sum and product to that range without an error: \<open>wrap64\<close> is the
  reduction, \<open>np_add\<close> and \<open>np_matvec\<close> are numpy's operations. \<open>vadd\<close> and
  \<open>matvec\<close> agree with them as long as no result leaves the range. For the sum of an
  anchor and the offsets of a block that is \<open>sums_fit\<close>. For the rotations it is
  \<open>rotates_exactly\<close>: \<open>Rx\<close>, \<open>Ry\<close> and \<open>Rz\<close> only permute and negate the entries of a
  vector, so it is enough that every entry and its negation are 64-bit values (the least
  64-bit integer is the one entry that numpy cannot negate), and \<open>roll\<close> and \<open>turn\<close>
  keep a block that way.
\<close>

definition int64 :: "int \<Rightarrow> bool" where
  "int64 x = (- (2 ^ 63) \<le> x \<and> x < 2 ^ 63)"

definition wrap64 :: "int \<Rightarrow> int" where
  "wrap64 x = (x + 2 ^ 63) mod 2 ^ 64 - 2 ^ 63"

fun np_add :: "vec \<Rightarrow> vec \<Rightarrow> vec" where
  "np_add (a, b, c) (x, y, z) = (wrap64 (a + x), wrap64 (b + y), wrap64 (c + z))"

fun np_dot :: "vec \<Rightarrow> vec \<Rightarrow> int" where
  "np_dot (a, b, c) (x, y, z) =
     wrap64 (wrap64 (wrap64 (a * x) + wrap64 (b * y)) + wrap64 (c * z))"

fun np_matvec :: "mat \<Rightarrow> vec \<Rightarrow> vec" where
  "np_matvec (r1, r2, r3) v = (np_dot r1 v, np_dot r2 v, np_dot r3 v)"

fun int64_vec :: "vec \<Rightarrow> bool" where
  "int64_vec (x, y, z) = (int64 x \<and> int64 y \<and> int64 z)"

definition sums_fit :: "vec \<Rightarrow> block \<Rightarrow> bool" where
  "sums_fit a b =
     (int64_vec a \<and>
      list_all (\<lambda>offset. int64_vec offset \<and> int64_vec (vadd a offset)) (coords b))"

fun negatable :: "vec \<Rightarrow> bool" where
  "negatable (x, y, z) =
     (int64 x \<and> int64 (- x) \<and> int64 y \<and> int64 (- y) \<and> int64 z \<and> int64 (- z))"

definition rotates_exactly :: "block \<Rightarrow> bool" where
  "rotates_exactly b = (list_all negatable (coords b) \<and> negatable (direction b))"

lemma wrap64_id: "int64 x \<Longrightarrow> wrap64 x = x"
  by (simp add: int64_def wrap64_def)

lemma wrap64_0: "wrap64 0 = 0"
  by (simp add: wrap64_def)

lemma np_add_exact: "int64_vec (vadd a v) \<Longrightarrow> np_add a v = vadd a v"
  by (cases a; cases v) (simp add: wrap64_id)

lemma np_matvec_exact:
  assumes "negatable v"
  shows "np_matvec Rx v = matvec Rx v" "np_matvec Ry v = matvec Ry v"
    "np_matvec Rz v = matvec Rz v"
    "negatable (matvec Rx v)" "negatable (matvec Rz v)"
  using assms by (cases v; simp add: Rx_def Ry_def Rz_def wrap64_id wrap64_0)+

lemma roll_exact:
  assumes "rotates_exactly b"
  shows "rotates_exactly (roll b)"
    and "roll b = b\<lparr>coords := map (np_matvec Rx) (coords b),
                     direction := np_matvec Rx (direction b)\<rparr>"
  using assms
  by (auto simp: rotates_exactly_def roll_def matmul_def list_all_iff np_matvec_exact
           simp del: negatable.simps np_matvec.simps matvec.simps)

lemma turn_exact:
  assumes "rotates_exactly b"
  shows "rotates_exactly (turn b)"
    and "turn b = b\<lparr>coords := map (np_matvec Rz) (coords b),
                     direction := np_matvec Rz (direction b)\<rparr>"
  using assms
  by (auto simp: rotates_exactly_def turn_def matmul_def list_all_iff np_matvec_exact
           simp del: negatable.simps np_matvec.simps matvec.simps)

subsection \<open>The generator \<open>rotations\<close>\<close>

text \<open>
  \<open>Block.rotations\<close> is a generator: its body is a fixed sequence of \<open>roll\<close>, \<open>turn\<close>
  and \<open>yield\<close> statements, obtained by unrolling the loops over \<open>range(2)\<close>,
  \<open>range(3)\<close> and \<open>range(3)\<close>. A generator instance is the part of that sequence still
  to run. \<open>gen_next\<close> is Python's \<open>next\<close>: it runs the statements up to the next
  \<open>yield\<close> on the block, which it updates in place, and returns the yielded value
  (\<open>self.coords\<close>), or \<open>None\<close> when the body ends (StopIteration).
\<close>

datatype stmt = Roll | Turn | Yield

definition rotations :: "stmt list" where
  "rotations =
     concat (replicate 2
       (concat (replicate 3
          ([Roll, Yield] @ concat (replicate 3 [Turn, Yield])))
        @ [Roll, Turn, Roll]))"

fun gen_next :: "stmt list \<Rightarrow> block \<Rightarrow> vec list option \<times> stmt list \<times> block" where
  "gen_next [] b = (None, [], b)"
| "gen_next (Roll # gen) b = gen_next gen (roll b)"
| "gen_next (Turn # gen) b = gen_next gen (turn b)"
| "gen_next (Yield # gen) b = (Some (coords b), gen, b)"

lemma gen_next_shorter:
  "gen_next gen b = (Some y, gen', b') \<Longrightarrow> length gen' < length gen"
  by (induction gen b rule: gen_next.induct) auto

text \<open>
  Every \<open>roll\<close> and \<open>turn\<close> of a run that starts on a block numpy rotates without
  wrapping works on such a block again, where it is numpy's operation (\<open>roll_exact\<close>,
  \<open>turn_exact\<close>).
\<close>

lemma gen_next_exact:
  "rotates_exactly b \<Longrightarrow> gen_next gen b = (y, gen', b') \<Longrightarrow> rotates_exactly b'"
  by (induction gen b rule: gen_next.induct) (auto simp: roll_exact(1) turn_exact(1))

text \<open>
  \<open>consume n\<close> calls \<open>next\<close> at most \<open>n\<close> times (a partial consumption of the generator);
  \<open>drain\<close> runs a \<open>for\<close> loop over the generator to its end. Both return the yielded
  values and the block as the generator leaves it.
\<close>

fun consume :: "nat \<Rightarrow> stmt list \<Rightarrow> block \<Rightarrow> vec list list \<times> stmt list \<times> block" where
  "consume 0 gen b = ([], gen, b)"
| "consume (Suc n) gen b =
     (case gen_next gen b of
        (None, gen', b') \<Rightarrow> ([], gen', b')
      | (Some y, gen', b') \<Rightarrow>
          (case consume n gen' b' of (ys, gen'', b'') \<Rightarrow> (y # ys, gen'', b'')))"

function drain :: "stmt list \<Rightarrow> block \<Rightarrow> vec list list \<times> block" where
  "drain gen b =
     (case gen_next gen b of
        (None, gen', b') \<Rightarrow> ([], b')
      | (Some y, gen', b') \<Rightarrow>
          (case drain gen' b' of (ys, b'') \<Rightarrow> (y # ys, b'')))"
  by pat_completeness auto
termination
  by (relation "measure (\<lambda>(gen, b). length gen)") (auto dest: gen_next_shorter [OF sym])

section \<open>Box\<close>

text \<open>
  \<open>Box.filled\<close> is a 3x3x3 numpy array of integers, here a list of three planes of three
  rows of three cells; \<open>filled[i, j, k]\<close> is \<open>filled ! i ! j ! k\<close>. Indices are read
  only in the range 0..2: the solver passes \<open>range(3)\<close> values, and \<open>validate_placement\<close>
  tests the bounds before it reads.
\<close>

type_synonym grid = "int list list list"

record box =
  filled :: grid

definition Box :: box where
  "Box = \<lparr>filled = replicate 3 (replicate 3 (replicate 3 0))\<rparr>"

definition is_filled :: "box \<Rightarrow> bool" where
  "is_filled bx = list_all (list_all (list_all (\<lambda>v. v = 1))) (filled bx)"

definition num_filled :: "box \<Rightarrow> int" where
  "num_filled bx = sum_list (map (\<lambda>plane. sum_list (map sum_list plane)) (filled bx))"

fun coord_is_filled :: "box \<Rightarrow> vec \<Rightarrow> int" where
  "coord_is_filled bx (i, j, k) = filled bx ! nat i ! nat j ! nat k"

fun set_coord :: "box \<Rightarrow> vec \<Rightarrow> int \<Rightarrow> box" where
  "set_coord bx (i, j, k) v =
     bx\<lparr>filled := (filled bx)[nat i :=
        (filled bx ! nat i)[nat j := (filled bx ! nat i ! nat j)[nat k := v]]]\<rparr>"

fun out_of_bounds :: "vec \<Rightarrow> bool" where
  "out_of_bounds (x, y, z) = ((x < 0 \<or> y < 0 \<or> z < 0) \<or> (x > 2 \<or> y > 2 \<or> z > 2))"

text \<open>
  Both failures of \<open>validate_placement\<close> are an \<open>IndexError\<close>; they differ in the message.
\<close>

datatype index_error = Out_of_bounds | Already_filled

text \<open>
  The loop of \<open>validate_placement\<close> over the offsets of the block. Next to the outcome it
  returns the number of offsets the loop has visited when it returns or raises.
\<close>

fun validate_loop :: "box \<Rightarrow> vec \<Rightarrow> vec list \<Rightarrow> (index_error + unit) \<times> nat" where
  "validate_loop bx origin_coords [] = (Inr (), 0)"
| "validate_loop bx origin_coords (offset # rest) =
     (let cube_coord = vadd origin_coords offset in
      if out_of_bounds cube_coord then (Inl Out_of_bounds, 1)
      else if coord_is_filled bx cube_coord \<noteq> 0 then (Inl Already_filled, 1)
      else (case validate_loop bx origin_coords rest of (r, n) \<Rightarrow> (r, Suc n)))"

definition validate_placement :: "box \<Rightarrow> block \<Rightarrow> vec \<Rightarrow> index_error + unit" where
  "validate_placement bx b origin_coords = fst (validate_loop bx origin_coords (coords b))"

definition cells_visited :: "box \<Rightarrow> block \<Rightarrow> vec \<Rightarrow> nat" where
  "cells_visited bx b origin_coords = snd (validate_loop bx origin_coords (coords b))"

fun mark_loop :: "box \<Rightarrow> vec \<Rightarrow> vec list \<Rightarrow> box" where
  "mark_loop bx origin_coords [] = bx"
| "mark_loop bx origin_coords (offset # rest) =
     mark_loop (set_coord bx (vadd origin_coords offset) 1) origin_coords rest"

text \<open>
  \<open>place\<close> mutates the box and may raise: it returns the outcome together with the box
  as the call leaves it.
\<close>

definition place :: "box \<Rightarrow> block \<Rightarrow> vec \<Rightarrow> (index_error + unit) \<times> box" where
  "place bx b origin_coords =
     (case validate_placement bx b origin_coords of
        Inl e \<Rightarrow> (Inl e, bx)
      | Inr u \<Rightarrow> (Inr (), mark_loop bx origin_coords (coords b)))"

section \<open>GameState and solve\<close>

record game =
  block_candidates :: "block list"
  placed_blocks :: "block list"
  box :: box

text \<open>The decimal digits of a number, for the block names \<open>B0\<close>, \<open>B1\<close>, ...\<close>

function str_nat :: "nat \<Rightarrow> string" where
  "str_nat n =
     (if n < 10 then [''0123456789'' ! n]
      else str_nat (n div 10) @ [''0123456789'' ! (n mod 10)])"
  by pat_completeness auto
termination
  by (relation "measure id") auto

definition GameState :: "vec list list \<Rightarrow> game" where
  "GameState block_list =
     \<lparr>block_candidates = map (\<lambda>(i, b). Block b (''B'' @ str_nat i)) (enumerate 0 block_list),
      placed_blocks = [],
      box = Box\<rparr>"

definition is_solved :: "game \<Rightarrow> bool" where
  "is_solved g = is_filled (box g)"

text \<open>
  The anchors \<open>[i, j, k]\<close> in the order of the three nested loops over \<open>range(3)\<close>.
\<close>

definition anchors :: "vec list" where
  "anchors = [(i, j, k). i \<leftarrow> [0, 1, 2], j \<leftarrow> [0, 1, 2], k \<leftarrow> [0, 1, 2]]"

text \<open>
  The first statements of the \<open>try\<close> block of \<open>solve\<close>: a deep copy of the game, a deep
  copy of the block in its current rotation, \<open>place\<close> on the copy's box and the append to
  the copy's placed blocks. \<open>None\<close> is the \<open>IndexError\<close> of \<open>place\<close>, which the
  \<open>except\<close> clause swallows; the game itself is not touched.
\<close>

definition place_copy :: "game \<Rightarrow> block \<Rightarrow> vec \<Rightarrow> game option" where
  "place_copy g placement_block a =
     (case place (box g) placement_block a of
        (Inl e, bx') \<Rightarrow> None
      | (Inr u, bx') \<Rightarrow>
          Some (g\<lparr>box := bx', placed_blocks := placed_blocks g @ [placement_block]\<rparr>))"

lemma place_copy_candidates:
  "place_copy g pb a = Some g' \<Longrightarrow> block_candidates g' = block_candidates g"
  by (auto simp: place_copy_def split: prod.splits sum.splits)

text \<open>
  \<open>solve\<close> pops the last candidate from the game it is given, so it changes its argument:
  \<open>solve g\<close> returns the pair of the argument as the call leaves it and of the returned
  game. \<open>anchor_loop\<close> is the triple loop over the anchors and \<open>rotation_loop\<close> the
  \<open>for\<close> loop over one generator instance; both return \<open>Some\<close> game when the
  \<open>return game_copy\<close> inside the loops is taken. The popped block is one object, rotated
  in place by the generators, so the loops pass it on.
\<close>

function solve :: "game \<Rightarrow> game \<times> game"
  and anchor_loop :: "game \<Rightarrow> block \<Rightarrow> vec list \<Rightarrow> game option"
  and rotation_loop :: "game \<Rightarrow> block \<Rightarrow> vec \<Rightarrow> stmt list \<Rightarrow> game option \<times> block"
where
  "solve g =
     (if \<not> is_solved g \<and> length (block_candidates g) > 0 then
        (let placement_block = last (block_candidates g);
             g' = g\<lparr>block_candidates := butlast (block_candidates g)\<rparr>
         in (g', case anchor_loop g' placement_block anchors of
                   Some game_copy \<Rightarrow> game_copy
                 | None \<Rightarrow> g'))
      else (g, g))"
| "anchor_loop g placement_block [] = None"
| "anchor_loop g placement_block (a # rest) =
     (if coord_is_filled (box g) a \<noteq> 0 then anchor_loop g placement_block rest
      else
        (case rotation_loop g (set_origin placement_block a) a rotations of
           (Some game_copy, pb') \<Rightarrow> Some game_copy
         | (None, pb') \<Rightarrow> anchor_loop g pb' rest))"
| "rotation_loop g placement_block a gen =
     (case gen_next gen placement_block of
        (None, gen', pb') \<Rightarrow> (None, pb')
      | (Some block_rotation, gen', pb') \<Rightarrow>
          (case place_copy g pb' a of
             None \<Rightarrow> rotation_loop g pb' a gen'
           | Some game_copy \<Rightarrow>
               (let game_copy' = snd (solve game_copy) in
                if is_solved game_copy' then (Some game_copy', pb')
                else rotation_loop g pb' a gen')))"
  by pat_completeness auto
termination
  by (relation "measures
        [\<lambda>x. case x of Inl g \<Rightarrow> length (block_candidates g)
                     | Inr (Inl (g, pb, as)) \<Rightarrow> length (block_candidates g)
                     | Inr (Inr (g, pb, a, gen)) \<Rightarrow> length (block_candidates g),
         \<lambda>x. case x of Inl g \<Rightarrow> 0 | Inr (Inl (g, pb, as)) \<Rightarrow> 2 | Inr (Inr (g, pb, a, gen)) \<Rightarrow> 1,
         \<lambda>x. case x of Inl g \<Rightarrow> 0 | Inr (Inl (g, pb, as)) \<Rightarrow> length as
                     | Inr (Inr (g, pb, a, gen)) \<Rightarrow> length gen]")
     (auto dest: gen_next_shorter [OF sym] place_copy_candidates)

section \<open>The rotations of a block\<close>

declare drain.simps [simp del]
declare solve.simps [simp del] rotation_loop.simps [simp del]

text \<open>
  The matrix that a run of the generator has accumulated: \<open>roll\<close> multiplies by \<open>Rx\<close>
  from the left and \<open>turn\<close> by \<open>Rz\<close>. \<open>cumulative gen M\<close> lists the accumulated matrix
  at every \<open>yield\<close> of \<open>gen\<close>, started at \<open>M\<close>, and returns the matrix at the end of
  the body. \<open>rotated M b\<close> is the block \<open>b\<close> with its offsets and its direction
  multiplied by \<open>M\<close>.
\<close>

fun cumulative :: "stmt list \<Rightarrow> mat \<Rightarrow> mat list \<times> mat" where
  "cumulative [] M = ([], M)"
| "cumulative (Roll # gen) M = cumulative gen (matmat Rx M)"
| "cumulative (Turn # gen) M = cumulative gen (matmat Rz M)"
| "cumulative (Yield # gen) M = (case cumulative gen M of (Ms, F) \<Rightarrow> (M # Ms, F))"

definition rotation_matrices :: "mat list" where
  "rotation_matrices = fst (cumulative rotations I3)"

definition rotated :: "mat \<Rightarrow> block \<Rightarrow> block" where
  "rotated M b = b\<lparr>coords := matmul M (coords b), direction := matvec M (direction b)\<rparr>"

lemma drain_Nil: "drain [] b = ([], b)"
  by (simp add: drain.simps)

lemma drain_Roll: "drain (Roll # gen) b = drain gen (roll b)"
  by (subst drain.simps, subst (2) drain.simps) simp

lemma drain_Turn: "drain (Turn # gen) b = drain gen (turn b)"
  by (subst drain.simps, subst (2) drain.simps) simp

lemma drain_Yield:
  "drain (Yield # gen) b = (case drain gen b of (ys, b') \<Rightarrow> (coords b # ys, b'))"
  by (subst drain.simps) simp

lemma matvec_matmat: "matvec (matmat A B) v = matvec A (matvec B v)"
  by (cases A; cases B; cases v) (auto simp: algebra_simps)

lemma matvec_I3: "matvec I3 v = v"
  by (cases v) (simp add: I3_def)

lemma matmul_I3: "matmul I3 cs = cs"
  by (induction cs) (simp_all add: matmul_def matvec_I3)

lemma roll_rotated: "roll (rotated M b) = rotated (matmat Rx M) b"
  by (simp add: roll_def rotated_def matmul_def matvec_matmat)

lemma turn_rotated: "turn (rotated M b) = rotated (matmat Rz M) b"
  by (simp add: turn_def rotated_def matmul_def matvec_matmat)

lemma rotated_I3: "rotated I3 b = b"
  by (simp add: rotated_def matmul_I3 matvec_I3)

lemma drain_rotated:
  "drain gen (rotated M b) =
     (map (\<lambda>N. matmul N (coords b)) (fst (cumulative gen M)),
      rotated (snd (cumulative gen M)) b)"
proof (induction gen M rule: cumulative.induct)
  case (1 M)
  show ?case by (simp add: drain_Nil)
next
  case (2 gen M)
  then show ?case by (simp add: drain_Roll roll_rotated)
next
  case (3 gen M)
  then show ?case by (simp add: drain_Turn turn_rotated)
next
  case (4 gen M)
  then show ?case by (simp add: drain_Yield rotated_def split: prod.splits)
qed

text \<open>The 24 matrices of one run, in the order of the yields, and the matrix it ends on.\<close>

definition mats24 :: "mat list" where
  "mats24 =
    [(( 1, 0, 0), ( 0, 0,-1), ( 0, 1, 0)), (( 0, 0, 1), ( 1, 0, 0), ( 0, 1, 0)),
     ((-1, 0, 0), ( 0, 0, 1), ( 0, 1, 0)), (( 0, 0,-1), (-1, 0, 0), ( 0, 1, 0)),
     (( 0, 0,-1), ( 0,-1, 0), (-1, 0, 0)), (( 0, 1, 0), ( 0, 0,-1), (-1, 0, 0)),
     (( 0, 0, 1), ( 0, 1, 0), (-1, 0, 0)), (( 0,-1, 0), ( 0, 0, 1), (-1, 0, 0)),
     (( 0,-1, 0), ( 1, 0, 0), ( 0, 0, 1)), ((-1, 0, 0), ( 0,-1, 0), ( 0, 0, 1)),
     (( 0, 1, 0), (-1, 0, 0), ( 0, 0, 1)), (( 1, 0, 0), ( 0, 1, 0), ( 0, 0, 1)),
     (( 0, 0, 1), (-1, 0, 0), ( 0,-1, 0)), (( 1, 0, 0), ( 0, 0, 1), ( 0,-1, 0)),
     (( 0, 0,-1), ( 1, 0, 0), ( 0,-1, 0)), ((-1, 0, 0), ( 0, 0,-1), ( 0,-1, 0)),
     ((-1, 0, 0), ( 0, 1, 0), ( 0, 0,-1)), (( 0,-1, 0), (-1, 0, 0), ( 0, 0,-1)),
     (( 1, 0, 0), ( 0,-1, 0), ( 0, 0,-1)), (( 0, 1, 0), ( 1, 0, 0), ( 0, 0,-1)),
     (( 0, 1, 0), ( 0, 0, 1), ( 1, 0, 0)), (( 0, 0,-1), ( 0, 1, 0), ( 1, 0, 0)),
     (( 0,-1, 0), ( 0, 0,-1), ( 1, 0, 0)), (( 0, 0, 1), ( 0,-1, 0), ( 1, 0, 0))]"

lemma cumulative_rotations: "cumulative rotations I3 = (mats24, I3)"
  by code_simp

lemma rotation_matrices_eq: "rotation_matrices = mats24"
  by (simp add: rotation_matrices_def cumulative_rotations)

lemma drain_rotations:
  "drain rotations b = (map (\<lambda>N. matmul N (coords b)) mats24, b)"
  using drain_rotated [of rotations I3 b]
  by (simp add: rotated_I3 cumulative_rotations)

lemma mats24_length: "length mats24 = 24"
  by (simp add: mats24_def)

lemma mats24_distinct: "distinct mats24"
  by (simp add: mats24_def)

lemma mats24_proper: "\<forall>M \<in> set mats24. proper_rotation M"
  by (simp add: mats24_def proper_rotation_def orthogonal_def I3_def)

lemma sq_le_1: "(t::int) * t \<le> 1 \<Longrightarrow> t = 0 \<or> t = 1 \<or> t = -1"
proof -
  assume h: "t * t \<le> 1"
  have "\<bar>t\<bar> \<le> 1"
  proof (rule ccontr)
    assume "\<not> \<bar>t\<bar> \<le> 1"
    then have "2 \<le> \<bar>t\<bar>" by simp
    then have "2 * 2 \<le> \<bar>t\<bar> * \<bar>t\<bar>" by (intro mult_mono) auto
    then show False using h by (simp add: abs_mult_self_eq)
  qed
  then show ?thesis by auto
qed

lemma unit_row:
  fixes x y z :: int
  assumes "x * x + y * y + z * z = 1"
  shows "(x = 0 \<and> y = 0 \<and> (z = 1 \<or> z = -1)) \<or> (x = 0 \<and> z = 0 \<and> (y = 1 \<or> y = -1))
       \<or> (y = 0 \<and> z = 0 \<and> (x = 1 \<or> x = -1))"
proof -
  have nn: "0 \<le> x * x" "0 \<le> y * y" "0 \<le> z * z" by simp_all
  have x: "x * x \<le> 1" using assms nn by linarith
  have y: "y * y \<le> 1" using assms nn by linarith
  have z: "z * z \<le> 1" using assms nn by linarith
  note cx = sq_le_1 [OF x] and cy = sq_le_1 [OF y] and cz = sq_le_1 [OF z]
  from cx cy cz assms show ?thesis
    by (elim disjE) simp_all
qed

text \<open>
  An orthogonal integer matrix has unit rows, so each row is a signed unit vector; of the
  216 such matrices the orthogonal ones of determinant 1 are the 24 of the list.
\<close>

lemma proper_in_mats24:
  assumes "proper_rotation M"
  shows "M \<in> set mats24"
proof -
  obtain a b c d e f g h i where M: "M = ((a, b, c), (d, e, f), (g, h, i))"
    by (metis prod_cases3)
  from assms have o: "a*a + b*b + c*c = 1" "d*d + e*e + f*f = 1" "g*g + h*h + i*i = 1"
    and p: "a*d + b*e + c*f = 0" "a*g + b*h + c*i = 0" "d*g + e*h + f*i = 0"
    and dt: "a * (e * i - f * h) - b * (d * i - f * g) + c * (d * h - e * g) = 1"
    by (simp_all add: M proper_rotation_def orthogonal_def I3_def)
  note r1 = unit_row [OF o(1)] and r2 = unit_row [OF o(2)] and r3 = unit_row [OF o(3)]
  from r1 r2 r3 p dt show ?thesis
    unfolding M mats24_def
    by (elim disjE conjE) simp_all
qed

lemma set_mats24: "set mats24 = {M. proper_rotation M}"
  using mats24_proper proper_in_mats24 by blast

text \<open>
  An offset transformed by an integer matrix, in the words of the specification: the
  product of the matrix and the vector over the integers, written out.
\<close>

fun transform :: "mat \<Rightarrow> vec \<Rightarrow> vec" where
  "transform ((a, b, c), (d, e, f), (g, h, i)) (x, y, z) =
     (a * x + b * y + c * z, d * x + e * y + f * z, g * x + h * y + i * z)"

lemma matvec_transform: "matvec M v = transform M v"
  by (cases M; cases v) (auto simp: split_paired_all)

lemma matmul_transform: "matmul M cs = map (transform M) cs"
  by (simp add: matmul_def matvec_transform)

definition b_010 :: block where
  "b_010 = Block [(0, 1, 0)] ''B0''"

definition b_123 :: block where
  "b_123 = Block [(1, 2, 3)] ''B0''"



lemma consume_Roll: "0 < n \<Longrightarrow> consume n (Roll # gen) b = consume n gen (roll b)"
  by (cases n) simp_all

lemma consume_Turn: "0 < n \<Longrightarrow> consume n (Turn # gen) b = consume n gen (turn b)"
  by (cases n) simp_all

lemma consume_rotated:
  "0 < n \<Longrightarrow> n \<le> length (fst (cumulative gen M)) \<Longrightarrow>
   fst (consume n gen (rotated M b)) =
     map (\<lambda>N. matmul N (coords b)) (take n (fst (cumulative gen M)))
   \<and> snd (snd (consume n gen (rotated M b))) = rotated (fst (cumulative gen M) ! (n - 1)) b"
proof (induction gen M arbitrary: n rule: cumulative.induct)
  case (1 M)
  then show ?case by simp
next
  case (2 gen M)
  then show ?case by (simp add: consume_Roll roll_rotated)
next
  case (3 gen M)
  then show ?case by (simp add: consume_Turn turn_rotated)
next
  case (4 gen M)
  obtain m where n: "n = Suc m" using "4.prems" by (cases n) auto
  obtain Ms F where cu: "cumulative gen M = (Ms, F)" by (cases "cumulative gen M")
  obtain ys g' b' where co: "consume m gen (rotated M b) = (ys, g', b')"
    by (cases "consume m gen (rotated M b)")
  have step: "consume n (Yield # gen) (rotated M b) = (coords (rotated M b) # ys, g', b')"
    by (simp add: n co)
  have cuY: "fst (cumulative (Yield # gen) M) = M # Ms"
    by (simp add: cu)
  have ys: "ys = map (\<lambda>N. matmul N (coords b)) (take m Ms)"
    and b': "b' = rotated ((M # Ms) ! m) b"
  proof -
    show "ys = map (\<lambda>N. matmul N (coords b)) (take m Ms)"
    proof (cases m)
      case 0
      with co show ?thesis by simp
    next
      case (Suc k)
      with "4.prems" n cu have "0 < m" "m \<le> length (fst (cumulative gen M))"
        by auto
      from "4.IH" [OF this] co cu show ?thesis by simp
    qed
    show "b' = rotated ((M # Ms) ! m) b"
    proof (cases m)
      case 0
      with co show ?thesis by simp
    next
      case (Suc k)
      with "4.prems" n cu have "0 < m" "m \<le> length (fst (cumulative gen M))"
        by auto
      from "4.IH" [OF this] co cu show ?thesis by (simp add: Suc)
    qed
  qed
  have "coords (rotated M b) = matmul M (coords b)" by (simp add: rotated_def)
  then show ?case
    unfolding step cuY fst_conv snd_conv by (simp add: n ys b')
qed

lemma mats24_nth_I3: "n < 24 \<Longrightarrow> mats24 ! n = I3 \<longleftrightarrow> n = 11"
proof -
  assume n: "n < 24"
  have e: "mats24 ! 11 = I3" by (simp add: mats24_def I3_def)
  have "mats24 ! n = mats24 ! 11 \<longleftrightarrow> n = 11"
    using n by (intro nth_eq_iff_index_eq mats24_distinct) (simp_all add: mats24_length)
  then show ?thesis by (simp only: e)
qed

text \<open>
  C2. The generator rotates the block it runs on in place. After \<open>n\<close> of the 24 values
  have been taken the block's stored offsets are the value yielded last: the offsets at
  the start transformed by the \<open>n\<close>-th accumulated matrix, and its direction is
  transformed with them. That matrix is the identity for \<open>n = 12\<close> and for no other
  \<open>n\<close>, so after 12 values the block is as it was at the start, and after any other
  number it is left rotated by a rotation that is not the identity. A run to the end
  also gives the block back as it was at the start, so that the next generator instance
  starts from the same offsets.
\<close>

theorem rotations_rotate_in_place:
  assumes "has_offsets b" "rotates_exactly b"
  shows "snd (drain rotations b) = b
       \<and> snd (snd (consume 12 rotations b)) = b
       \<and> (\<forall>n. 0 < n \<and> n \<le> 24 \<longrightarrow>
            fst (consume n rotations b) = take n (fst (drain rotations b))
            \<and> snd (snd (consume n rotations b))
                = b\<lparr>coords := map (transform (rotation_matrices ! (n - 1))) (coords b),
                     direction := transform (rotation_matrices ! (n - 1)) (direction b)\<rparr>
            \<and> coords (snd (snd (consume n rotations b))) = last (fst (consume n rotations b))
            \<and> (rotation_matrices ! (n - 1) = I3 \<longleftrightarrow> n = 12))"
proof -
  have step: "fst (consume n rotations b) = take n (fst (drain rotations b))
            \<and> snd (snd (consume n rotations b))
                = b\<lparr>coords := map (transform (rotation_matrices ! (n - 1))) (coords b),
                     direction := transform (rotation_matrices ! (n - 1)) (direction b)\<rparr>
            \<and> coords (snd (snd (consume n rotations b))) = last (fst (consume n rotations b))
            \<and> (rotation_matrices ! (n - 1) = I3 \<longleftrightarrow> n = 12)"
    if n: "0 < n \<and> n \<le> 24" for n
  proof (intro conjI)
    from n have le: "n \<le> length (fst (cumulative rotations I3))"
      by (simp add: cumulative_rotations mats24_length)
    from n have pos: "0 < n" by simp
    note c = consume_rotated [OF pos le, of b, unfolded rotated_I3 cumulative_rotations fst_conv]
    show "fst (consume n rotations b) = take n (fst (drain rotations b))"
      using c by (simp add: drain_rotations take_map)
    show "snd (snd (consume n rotations b))
                = b\<lparr>coords := map (transform (rotation_matrices ! (n - 1))) (coords b),
                     direction := transform (rotation_matrices ! (n - 1)) (direction b)\<rparr>"
      using c by (simp add: rotation_matrices_eq rotated_def matmul_transform matvec_transform)
    have ne: "take n mats24 \<noteq> []" using n mats24_length by auto
    have len: "length (take n mats24) = n" using n by (simp add: mats24_length)
    have "last (take n mats24) = take n mats24 ! (n - 1)"
      using last_conv_nth [OF ne] by (simp only: len)
    then have "last (take n mats24) = mats24 ! (n - 1)"
      using n by simp
    with ne show "coords (snd (snd (consume n rotations b))) = last (fst (consume n rotations b))"
      using c by (simp add: last_map rotated_def)
    from n have "n - 1 < 24" by arith
    from mats24_nth_I3 [OF this] n show "rotation_matrices ! (n - 1) = I3 \<longleftrightarrow> n = 12"
      by (auto simp: rotation_matrices_eq)
  qed
  have twelve: "snd (snd (consume 12 rotations b)) = b"
  proof -
    have "(0::nat) < 12 \<and> (12::nat) \<le> 24" by simp
    from step [OF this] have "rotation_matrices ! (12 - 1) = I3"
      and "snd (snd (consume 12 rotations b))
                = b\<lparr>coords := map (transform (rotation_matrices ! (12 - 1))) (coords b),
                     direction := transform (rotation_matrices ! (12 - 1)) (direction b)\<rparr>"
      by blast+
    then have "snd (snd (consume 12 rotations b)) = rotated I3 b"
      by (simp add: rotated_def matmul_transform matvec_transform)
    then show ?thesis by (simp add: rotated_I3)
  qed
  have "snd (drain rotations b) = b" by (simp add: drain_rotations)
  with twelve step show ?thesis by blast
qed

theorem rotations_rotate_in_place_witness:
  "has_offsets b_123 \<and> rotates_exactly b_123
   \<and> snd (drain rotations b_123) = b_123
   \<and> snd (snd (consume 12 rotations b_123)) = b_123
   \<and> (0::nat) < 5 \<and> (5::nat) \<le> 24
   \<and> coords (snd (snd (consume 5 rotations b_123)))
       = map (transform (rotation_matrices ! (5 - 1))) (coords b_123)
   \<and> coords (snd (snd (consume 5 rotations b_123))) = [(-3, -2, -1)]
   \<and> rotation_matrices ! (5 - 1) \<noteq> I3"
proof -
  have h: "has_offsets b_123" "rotates_exactly b_123"
    by (simp_all add: has_offsets_def rotates_exactly_def b_123_def Block_def int64_def)
  have n: "(0::nat) < 5 \<and> (5::nat) \<le> 24" by simp
  have c: "coords (snd (snd (consume 5 rotations b_123))) = [(-3, -2, -1)]"
    by code_simp
  note t = rotations_rotate_in_place [OF h]
  from t have d: "snd (drain rotations b_123) = b_123"
    and e: "snd (snd (consume 12 rotations b_123)) = b_123"
    by blast+
  from t n
  have s: "snd (snd (consume 5 rotations b_123))
          = b_123\<lparr>coords := map (transform (rotation_matrices ! (5 - 1))) (coords b_123),
                   direction := transform (rotation_matrices ! (5 - 1)) (direction b_123)\<rparr>"
    and i: "rotation_matrices ! (5 - 1) = I3 \<longleftrightarrow> (5::nat) = 12"
    by blast+
  from s have m: "coords (snd (snd (consume 5 rotations b_123)))
       = map (transform (rotation_matrices ! (5 - 1))) (coords b_123)"
    by simp
  from i have k: "rotation_matrices ! (5 - 1) \<noteq> I3" by simp
  from n have n1: "(0::nat) < 5" and n2: "(5::nat) \<le> 24" by simp_all
  show ?thesis
    by (intro conjI) (rule h d e n1 n2 m c k)+
qed

text \<open>
  After one \<open>next\<close> the block with the single offset \<open>(0, 1, 0)\<close> holds \<open>(0, 0, 1)\<close>:
  a partially consumed generator has changed the block's offsets.
\<close>

theorem rotations_partial_run_changes_block:
  "coords (snd (snd (consume 1 rotations b_010))) \<noteq> coords b_010"
  by code_simp

section \<open>Validation and placement\<close>

text \<open>
  \<open>cells b a\<close> are the absolute cells of the block \<open>b\<close> at the anchor \<open>a\<close>, in the
  order of the offsets. A cell is offending when \<open>validate_placement\<close> raises on it:
  it is out of bounds, or in bounds and filled.
\<close>

definition cells :: "block \<Rightarrow> vec \<Rightarrow> vec list" where
  "cells b a = map (vadd a) (coords b)"

definition offending :: "box \<Rightarrow> vec \<Rightarrow> bool" where
  "offending bx c = (out_of_bounds c \<or> coord_is_filled bx c \<noteq> 0)"

definition error_of :: "vec \<Rightarrow> index_error" where
  "error_of c = (if out_of_bounds c then Out_of_bounds else Already_filled)"

lemma validate_loop_find:
  "fst (validate_loop bx a offs) =
     (case find (offending bx) (map (vadd a) offs) of
        None \<Rightarrow> Inr ()
      | Some c \<Rightarrow> Inl (error_of c))"
  by (induction offs) (auto simp: offending_def error_of_def Let_def split: prod.splits)

lemma validate_loop_visited:
  "snd (validate_loop bx a offs) =
     (case find (offending bx) (map (vadd a) offs) of
        None \<Rightarrow> length offs
      | Some c \<Rightarrow> Suc (length (takeWhile (\<lambda>c. \<not> offending bx c) (map (vadd a) offs))))"
  by (induction offs) (auto simp: offending_def Let_def split: prod.splits option.splits)

lemma validate_loop_ok_iff:
  "fst (validate_loop bx a offs) = Inr () \<longleftrightarrow>
     (\<forall>c \<in> set (map (vadd a) offs). \<not> offending bx c)"
  by (induction offs) (auto simp: offending_def Let_def split: prod.splits)

lemma validate_loop_ok_visited:
  "fst (validate_loop bx a offs) = Inr () \<Longrightarrow> snd (validate_loop bx a offs) = length offs"
  by (induction offs) (auto simp: Let_def split: prod.splits if_splits)

lemma validate_loop_error:
  "fst (validate_loop bx a offs) \<noteq> Inr () \<Longrightarrow>
   0 < snd (validate_loop bx a offs)
   \<and> fst (validate_loop bx a offs) =
       Inl (error_of (map (vadd a) offs ! (snd (validate_loop bx a offs) - 1)))"
proof (induction offs)
  case Nil
  then show ?case by simp
next
  case (Cons off offs)
  show ?case
  proof (cases "offending bx (vadd a off)")
    case True
    then show ?thesis by (auto simp: offending_def error_of_def Let_def)
  next
    case False
    obtain r n where v: "validate_loop bx a offs = (r, n)" by (cases "validate_loop bx a offs")
    from False have st: "validate_loop bx a (off # offs) = (r, Suc n)"
      by (simp add: offending_def v)
    from Cons.prems st have "r \<noteq> Inr ()" by simp
    with Cons.IH v have ih: "0 < n" "r = Inl (error_of (map (vadd a) offs ! (n - 1)))"
      by simp_all
    have "map (vadd a) (off # offs) ! n = map (vadd a) offs ! (n - 1)"
      using ih(1) by (cases n) simp_all
    with ih show ?thesis unfolding st fst_conv snd_conv by simp
  qed
qed

lemma find_offending_oob:
  "find (offending bx) cs = Some c \<Longrightarrow> c \<in> set cs \<and> offending bx c"
  by (induction cs) (auto split: if_splits)

lemma find_in_bounds:
  "\<forall>c \<in> set cs. \<not> out_of_bounds c \<Longrightarrow> find (offending bx) cs = Some c \<Longrightarrow>
   error_of c = Already_filled"
  by (auto simp: error_of_def dest: find_offending_oob)

lemma validate_placement_find:
  "validate_placement bx b a =
     (case find (offending bx) (cells b a) of
        None \<Rightarrow> Inr ()
      | Some c \<Rightarrow> Inl (error_of c))"
  by (simp add: validate_placement_def cells_def validate_loop_find)

lemma cells_np_add: "sums_fit a b \<Longrightarrow> cells b a = map (np_add a) (coords b)"
  by (simp add: sums_fit_def cells_def list_all_iff np_add_exact
           del: np_add.simps vadd.simps int64_vec.simps)

text \<open>
  \<open>validate_placement\<close> as a call on its two objects: the same loop, returning next to
  the outcome the box and the block as the call leaves them.
\<close>

fun validate_call :: "box \<Rightarrow> block \<Rightarrow> vec \<Rightarrow> vec list \<Rightarrow> (index_error + unit) \<times> box \<times> block" where
  "validate_call bx b origin_coords [] = (Inr (), bx, b)"
| "validate_call bx b origin_coords (offset # rest) =
     (let cube_coord = vadd origin_coords offset in
      if out_of_bounds cube_coord then (Inl Out_of_bounds, bx, b)
      else if coord_is_filled bx cube_coord \<noteq> 0 then (Inl Already_filled, bx, b)
      else validate_call bx b origin_coords rest)"

lemma validate_call_pure:
  "validate_call bx b a offs = (fst (validate_loop bx a offs), bx, b)"
  by (induction offs) (auto simp: Let_def split: prod.splits)

text \<open>Blocks and a box used as examples.\<close>

definition box_000 :: box where
  "box_000 = snd (place Box (Block [(0, 0, 0)] ''B0'') (0, 0, 0))"

definition b_back :: block where
  "b_back = Block [(0, 0, 0), (-1, 0, 0)] ''B1''"

definition b_line2 :: block where
  "b_line2 = Block [(1, 0, 0), (0, 0, 0)] ''B1''"

definition b_far :: block where
  "b_far = Block [(3, 0, 0), (0, 0, 0)] ''B1''"

text \<open>
  C5. For an anchor and a block whose sums numpy computes without wrapping (so that the
  cells of the model are the cells of the code), \<open>validate_placement\<close> raises nothing
  exactly when every absolute cell of the block is in bounds and not filled. Otherwise it raises the error of the first offending
  cell in the order of the offsets: \<open>Out_of_bounds\<close> when that cell is out of bounds,
  \<open>Already_filled\<close> when it is in bounds and filled. So an \<open>Out_of_bounds\<close> failure
  implies that some cell is out of bounds, and when all cells are in bounds the failure
  \<open>Already_filled\<close> is raised exactly when some cell is filled.
\<close>

theorem validate_placement_outcome:
  assumes "sums_fit a b"
  shows "cells b a = map (np_add a) (coords b)
   \<and> (validate_placement bx b a = Inr () \<longleftrightarrow>
      (\<forall>c \<in> set (cells b a). \<not> out_of_bounds c \<and> coord_is_filled bx c = 0))
   \<and> (validate_placement bx b a = Inl Out_of_bounds \<longrightarrow>
      (\<exists>c \<in> set (cells b a). out_of_bounds c))
   \<and> ((\<forall>c \<in> set (cells b a). \<not> out_of_bounds c) \<longrightarrow>
      (validate_placement bx b a = Inl Already_filled \<longleftrightarrow>
         (\<exists>c \<in> set (cells b a). coord_is_filled bx c \<noteq> 0)))
   \<and> validate_placement bx b a =
      (case find (offending bx) (cells b a) of
         None \<Rightarrow> Inr ()
       | Some c \<Rightarrow> Inl (if out_of_bounds c then Out_of_bounds else Already_filled))"
proof (intro conjI impI)
  show "cells b a = map (np_add a) (coords b)"
    using assms by (rule cells_np_add)
next
  show "validate_placement bx b a = Inr () \<longleftrightarrow>
      (\<forall>c \<in> set (cells b a). \<not> out_of_bounds c \<and> coord_is_filled bx c = 0)"
    using validate_loop_ok_iff [of bx a "coords b"]
    by (simp add: validate_placement_def cells_def offending_def)
next
  assume "validate_placement bx b a = Inl Out_of_bounds"
  then obtain c where "find (offending bx) (cells b a) = Some c" "error_of c = Out_of_bounds"
    by (auto simp: validate_placement_find split: option.splits)
  then show "\<exists>c \<in> set (cells b a). out_of_bounds c"
    by (auto simp: error_of_def dest: find_offending_oob split: if_splits)
next
  assume inb: "\<forall>c \<in> set (cells b a). \<not> out_of_bounds c"
  show "validate_placement bx b a = Inl Already_filled \<longleftrightarrow>
         (\<exists>c \<in> set (cells b a). coord_is_filled bx c \<noteq> 0)"
  proof
    assume "validate_placement bx b a = Inl Already_filled"
    then obtain c where "find (offending bx) (cells b a) = Some c"
      by (auto simp: validate_placement_find split: option.splits)
    with inb show "\<exists>c \<in> set (cells b a). coord_is_filled bx c \<noteq> 0"
      by (auto simp: offending_def dest!: find_offending_oob)
  next
    assume "\<exists>c \<in> set (cells b a). coord_is_filled bx c \<noteq> 0"
    then have "\<exists>c \<in> set (cells b a). offending bx c"
      unfolding offending_def by blast
    then have "find (offending bx) (cells b a) \<noteq> None"
      unfolding find_None_iff by blast
    then obtain c where f: "find (offending bx) (cells b a) = Some c" by auto
    from find_in_bounds [OF inb f] f show "validate_placement bx b a = Inl Already_filled"
      by (simp add: validate_placement_find)
  qed
next
  show "validate_placement bx b a =
      (case find (offending bx) (cells b a) of
         None \<Rightarrow> Inr ()
       | Some c \<Rightarrow> Inl (if out_of_bounds c then Out_of_bounds else Already_filled))"
    by (simp add: validate_placement_find error_of_def split: option.splits)
qed

theorem validate_placement_outcome_witness:
  "sums_fit (0, 0, 0) b_far \<and> sums_fit (0, 0, 0) b_line2
   \<and> validate_placement Box b_far (0, 0, 0) = Inl Out_of_bounds
   \<and> (\<exists>c \<in> set (cells b_far (0, 0, 0)). out_of_bounds c)
   \<and> validate_placement box_000 b_line2 (0, 0, 0) = Inl Already_filled
   \<and> (\<exists>c \<in> set (cells b_line2 (0, 0, 0)). coord_is_filled box_000 c \<noteq> 0)"
proof -
  have s1: "sums_fit (0, 0, 0) b_far" and s2: "sums_fit (0, 0, 0) b_line2"
    by (simp_all add: sums_fit_def b_far_def b_line2_def Block_def int64_def)
  have v1: "validate_placement Box b_far (0, 0, 0) = Inl Out_of_bounds"
    by code_simp
  have h2: "\<forall>c \<in> set (cells b_line2 (0, 0, 0)). \<not> out_of_bounds c"
    by (simp add: cells_def b_line2_def Block_def)
  have v2: "validate_placement box_000 b_line2 (0, 0, 0) = Inl Already_filled"
    by code_simp
  from validate_placement_outcome [OF s1, of Box] v1
       validate_placement_outcome [OF s2, of box_000] h2 v2 s1 s2
  show ?thesis by blast
qed

text \<open>
  A block with an out-of-bounds cell whose earlier cell is filled fails with
  \<open>Already_filled\<close>, not with \<open>Out_of_bounds\<close>.
\<close>

theorem validate_placement_collision_before_bounds:
  "(\<exists>c \<in> set (cells b_back (0, 0, 0)). out_of_bounds c)
   \<and> validate_placement box_000 b_back (0, 0, 0) = Inl Already_filled"
  by code_simp

text \<open>
  C3. For an anchor and a block whose sums numpy computes without wrapping:
  \<open>validate_placement\<close> assigns neither to the box nor to the block, the call leaves
  both as they were whatever its outcome. When it raises nothing it has visited every
  offset of the block. When it raises, it has stopped at the first offending cell in the
  order of the offsets and raises the error of that cell (\<open>Out_of_bounds\<close> when the cell
  is out of bounds, \<open>Already_filled\<close> otherwise): the cells before it are not
  offending, and the offsets after it are never looked at (replacing them by any others
  gives the same outcome after the same number of visits).
\<close>

theorem validate_placement_visits:
  assumes "sums_fit a b"
  shows "validate_call bx b a (coords b) = (validate_placement bx b a, bx, b)
   \<and> (validate_placement bx b a = Inr () \<longrightarrow> cells_visited bx b a = length (coords b))
   \<and> (validate_placement bx b a \<noteq> Inr () \<longrightarrow>
        0 < cells_visited bx b a \<and> cells_visited bx b a \<le> length (coords b)
        \<and> offending bx (cells b a ! (cells_visited bx b a - 1))
        \<and> validate_placement bx b a =
            Inl (if out_of_bounds (cells b a ! (cells_visited bx b a - 1))
                 then Out_of_bounds else Already_filled)
        \<and> (\<forall>i < cells_visited bx b a - 1. \<not> offending bx (cells b a ! i))
        \<and> (\<forall>rest. validate_loop bx a (take (cells_visited bx b a) (coords b) @ rest)
              = validate_loop bx a (coords b)))"
proof -
  note ok = validate_loop_ok_visited [of bx a]
  have bad: "fst (validate_loop bx a offs) \<noteq> Inr () \<Longrightarrow>
      0 < snd (validate_loop bx a offs) \<and> snd (validate_loop bx a offs) \<le> length offs
      \<and> offending bx (map (vadd a) offs ! (snd (validate_loop bx a offs) - 1))
      \<and> (\<forall>i < snd (validate_loop bx a offs) - 1. \<not> offending bx (map (vadd a) offs ! i))
      \<and> (\<forall>rest. validate_loop bx a (take (snd (validate_loop bx a offs)) offs @ rest)
              = validate_loop bx a offs)"
    for offs
  proof (induction offs)
    case Nil
    then show ?case by simp
  next
    case (Cons off offs)
    show ?case
    proof (cases "offending bx (vadd a off)")
      case True
      then show ?thesis by (auto simp: offending_def Let_def)
    next
      case False
      obtain r n where v: "validate_loop bx a offs = (r, n)" by (cases "validate_loop bx a offs")
      from False have st: "validate_loop bx a (off # offs) = (r, Suc n)"
        by (simp add: offending_def v)
      from Cons.prems st have "r \<noteq> Inr ()" by simp
      with Cons.IH v have ih: "0 < n" "n \<le> length offs"
        "offending bx (map (vadd a) offs ! (n - 1))"
        "\<forall>i < n - 1. \<not> offending bx (map (vadd a) offs ! i)"
        "\<forall>rest. validate_loop bx a (take n offs @ rest) = (r, n)"
        by simp_all
      have "\<forall>i < n. \<not> offending bx (map (vadd a) (off # offs) ! i)"
      proof (intro allI impI)
        fix i assume "i < n"
        then show "\<not> offending bx (map (vadd a) (off # offs) ! i)"
          using False ih(4) by (cases i) auto
      qed
      moreover have "offending bx (map (vadd a) (off # offs) ! n)"
        using ih(1,3) by (cases n) auto
      moreover have "\<forall>rest. validate_loop bx a (take (Suc n) (off # offs) @ rest) = (r, Suc n)"
        using False ih(5) by (simp add: offending_def)
      ultimately show ?thesis unfolding st fst_conv snd_conv using ih(1,2) by simp
    qed
  qed
  have pure: "validate_call bx b a (coords b) = (validate_placement bx b a, bx, b)"
    by (simp add: validate_call_pure validate_placement_def)
  have err: "validate_placement bx b a \<noteq> Inr () \<longrightarrow>
        validate_placement bx b a =
            Inl (if out_of_bounds (cells b a ! (cells_visited bx b a - 1))
                 then Out_of_bounds else Already_filled)"
    using validate_loop_error [of bx a "coords b"]
    by (simp add: validate_placement_def cells_visited_def cells_def error_of_def)
  have "(validate_placement bx b a = Inr () \<longrightarrow> cells_visited bx b a = length (coords b))
      \<and> (validate_placement bx b a \<noteq> Inr () \<longrightarrow>
        0 < cells_visited bx b a \<and> cells_visited bx b a \<le> length (coords b)
        \<and> offending bx (cells b a ! (cells_visited bx b a - 1))
        \<and> (\<forall>i < cells_visited bx b a - 1. \<not> offending bx (cells b a ! i))
        \<and> (\<forall>rest. validate_loop bx a (take (cells_visited bx b a) (coords b) @ rest)
              = validate_loop bx a (coords b)))"
    using ok [of "coords b"] bad [of "coords b"]
    by (simp add: validate_placement_def cells_visited_def cells_def)
  with pure err show ?thesis by blast
qed

theorem validate_placement_visits_witness:
  "sums_fit (0, 0, 0) b_line2
   \<and> validate_placement Box b_line2 (0, 0, 0) = Inr ()
   \<and> cells_visited Box b_line2 (0, 0, 0) = length (coords b_line2)
   \<and> validate_placement box_000 b_line2 (0, 0, 0) \<noteq> Inr ()
   \<and> cells_visited box_000 b_line2 (0, 0, 0) \<le> length (coords b_line2)
   \<and> validate_placement box_000 b_line2 (0, 0, 0) =
        Inl (if out_of_bounds (cells b_line2 (0, 0, 0) ! (cells_visited box_000 b_line2 (0, 0, 0) - 1))
             then Out_of_bounds else Already_filled)
   \<and> validate_placement box_000 b_line2 (0, 0, 0) = Inl Already_filled
   \<and> cells_visited box_000 b_line2 (0, 0, 0) = 2
   \<and> validate_call box_000 b_line2 (0, 0, 0) (coords b_line2)
        = (Inl Already_filled, box_000, b_line2)"
proof -
  have s: "sums_fit (0, 0, 0) b_line2"
    by (simp add: sums_fit_def b_line2_def Block_def int64_def)
  have v1: "validate_placement Box b_line2 (0, 0, 0) = Inr ()"
    by code_simp
  have v2: "validate_placement box_000 b_line2 (0, 0, 0) \<noteq> Inr ()"
    by code_simp
  have v3: "validate_placement box_000 b_line2 (0, 0, 0) = Inl Already_filled"
    and v4: "cells_visited box_000 b_line2 (0, 0, 0) = 2"
    by code_simp+
  note t1 = validate_placement_visits [OF s, of Box]
  note t2 = validate_placement_visits [OF s, of box_000]
  from t1 v1 have a: "cells_visited Box b_line2 (0, 0, 0) = length (coords b_line2)"
    by blast
  from t2 v2 have b: "cells_visited box_000 b_line2 (0, 0, 0) \<le> length (coords b_line2)"
    and c: "validate_placement box_000 b_line2 (0, 0, 0) =
        Inl (if out_of_bounds (cells b_line2 (0, 0, 0) ! (cells_visited box_000 b_line2 (0, 0, 0) - 1))
             then Out_of_bounds else Already_filled)"
    by blast+
  from t2 have "validate_call box_000 b_line2 (0, 0, 0) (coords b_line2)
        = (validate_placement box_000 b_line2 (0, 0, 0), box_000, b_line2)"
    by blast
  then have d: "validate_call box_000 b_line2 (0, 0, 0) (coords b_line2)
        = (Inl Already_filled, box_000, b_line2)"
    by (simp only: v3)
  show ?thesis
    by (intro conjI) (rule s v1 a v2 b c v3 v4 d)+
qed

text \<open>
  On a block of two offsets whose first cell is out of bounds, the loop raises after one
  visit.
\<close>

theorem validate_placement_stops_early:
  "validate_placement Box b_far (0, 0, 0) = Inl Out_of_bounds
   \<and> cells_visited Box b_far (0, 0, 0) = 1
   \<and> length (coords b_far) = 2"
  by code_simp

text \<open>
  C6. \<open>place\<close> is atomic with respect to failure: when it raises (its outcome is the
  outcome of \<open>validate_placement\<close>), the box is left exactly as it was; and whenever
  the box has changed, the validation of the whole block had succeeded, after visiting
  all of its offsets.
\<close>

theorem place_atomic:
  "(fst (place bx b a) \<noteq> Inr () \<longrightarrow> snd (place bx b a) = bx)
   \<and> (fst (place bx b a) = validate_placement bx b a)
   \<and> (snd (place bx b a) \<noteq> bx \<longrightarrow>
        validate_placement bx b a = Inr () \<and> cells_visited bx b a = length (coords b))"
proof -
  have "validate_placement bx b a = Inr () \<Longrightarrow> cells_visited bx b a = length (coords b)"
    unfolding validate_placement_def cells_visited_def
    by (rule validate_loop_ok_visited)
  then show ?thesis
    by (auto simp: place_def split: sum.splits)
qed


theorem place_atomic_witness:
  "fst (place box_000 b_line2 (0, 0, 0)) \<noteq> Inr ()
   \<and> snd (place box_000 b_line2 (0, 0, 0)) = box_000
   \<and> snd (place Box b_line2 (0, 0, 0)) \<noteq> Box
   \<and> validate_placement Box b_line2 (0, 0, 0) = Inr ()"
proof -
  have f: "fst (place box_000 b_line2 (0, 0, 0)) \<noteq> Inr ()"
    by code_simp
  have c: "snd (place Box b_line2 (0, 0, 0)) \<noteq> Box"
    by code_simp
  from place_atomic [of box_000 b_line2 "(0, 0, 0)"] f
       place_atomic [of Box b_line2 "(0, 0, 0)"] c
  show ?thesis by blast
qed

section \<open>The occupancy grid\<close>

text \<open>
  \<open>grid_ok\<close> says that the array has the shape 3x3x3 and holds only 0 and 1, as every
  box does that \<open>Box\<close> creates and \<open>place\<close> fills. \<open>filled_cells\<close> is the set of the
  coordinates in the box that \<open>coord_is_filled\<close> reports as filled.
\<close>

lemma set_anchors: "set anchors = {0, 1, 2} \<times> {0, 1, 2} \<times> {0, 1, 2}"
  unfolding anchors_def by (simp add: set_eq_iff)

lemma range3: "(x::int) \<in> {0, 1, 2} \<longleftrightarrow> (\<not> x < 0 \<and> \<not> 2 < x)"
  by auto

lemma anchors_iff: "c \<in> set anchors \<longleftrightarrow> \<not> out_of_bounds c"
proof -
  obtain x y z where c: "c = (x, y, z)" by (cases c)
  have "c \<in> set anchors \<longleftrightarrow> x \<in> {0, 1, 2} \<and> y \<in> {0, 1, 2} \<and> z \<in> {0, 1, 2}"
    unfolding set_anchors c by blast
  then show ?thesis unfolding range3 c by simp blast
qed

definition grid_ok :: "box \<Rightarrow> bool" where
  "grid_ok bx =
     (length (filled bx) = 3 \<and>
      (\<forall>plane \<in> set (filled bx). length plane = 3 \<and>
         (\<forall>row \<in> set plane. length row = 3 \<and> (\<forall>v \<in> set row. v = 0 \<or> v = 1))))"

lemma grid_ok_Box: "grid_ok Box"
  by (simp add: grid_ok_def Box_def)

lemma grid_ok_lengths:
  assumes "grid_ok bx" "i < 3" "j < 3"
  shows "length (filled bx) = 3" "length (filled bx ! i) = 3" "length (filled bx ! i ! j) = 3"
proof -
  show l1: "length (filled bx) = 3" using assms unfolding grid_ok_def by blast
  have p: "filled bx ! i \<in> set (filled bx)" using assms(2) l1 by simp
  with assms(1) show l2: "length (filled bx ! i) = 3" unfolding grid_ok_def by blast
  have "filled bx ! i ! j \<in> set (filled bx ! i)" using assms(3) l2 by simp
  with p assms(1) show "length (filled bx ! i ! j) = 3" unfolding grid_ok_def by blast
qed

lemma nth3_update:
  "i < length g \<Longrightarrow> j < length (g ! i) \<Longrightarrow> k < length (g ! i ! j) \<Longrightarrow>
   (g[i := (g ! i)[j := (g ! i ! j)[k := v]]]) ! i' ! j' ! k' =
     (if i' = i \<and> j' = j \<and> k' = k then v else g ! i' ! j' ! k')"
  by (auto simp: nth_list_update)

lemma coord_set_coord:
  assumes "grid_ok bx" "\<not> out_of_bounds c" "\<not> out_of_bounds c'"
  shows "coord_is_filled (set_coord bx c v) c' = (if c' = c then v else coord_is_filled bx c')"
proof -
  obtain i j k where c: "c = (i, j, k)" by (cases c)
  obtain i' j' k' where c': "c' = (i', j', k')" by (cases c')
  from assms(2) c have r: "nat i < 3" "nat j < 3" "nat k < 3" and nn: "0 \<le> i" "0 \<le> j" "0 \<le> k"
    by auto
  from assms(3) c' have nn': "0 \<le> i'" "0 \<le> j'" "0 \<le> k'"
    by auto
  note l = grid_ok_lengths [OF assms(1) r(1) r(2)]
  have eq: "(nat i' = nat i \<and> nat j' = nat j \<and> nat k' = nat k) \<longleftrightarrow> c' = c"
    using nn nn' by (auto simp: c c')
  have "coord_is_filled (set_coord bx c v) c' =
        (if nat i' = nat i \<and> nat j' = nat j \<and> nat k' = nat k then v
         else filled bx ! nat i' ! nat j' ! nat k')"
    unfolding c c' using nth3_update [of "nat i" "filled bx" "nat j" "nat k" v "nat i'" "nat j'" "nat k'"] l r
    by simp
  then show ?thesis unfolding eq by (simp add: c')
qed

lemma grid_ok_set_coord:
  assumes "grid_ok bx" "v = 0 \<or> v = 1" "\<not> out_of_bounds c"
  shows "grid_ok (set_coord bx c v)"
proof -
  obtain i j k where c: "c = (i, j, k)" by (cases c)
  from assms(3) c have r: "nat i < 3" "nat j < 3" by auto
  let ?row = "(filled bx ! nat i ! nat j)[nat k := v]"
  let ?plane = "(filled bx ! nat i)[nat j := ?row]"
  note l = grid_ok_lengths [OF assms(1) r]
  have planemem: "filled bx ! nat i \<in> set (filled bx)"
    using r l by simp
  have rowmem: "filled bx ! nat i ! nat j \<in> set (filled bx ! nat i)"
    using r l by simp
  have rows: "\<forall>rw \<in> set (filled bx ! nat i). length rw = 3 \<and> (\<forall>x \<in> set rw. x = 0 \<or> x = 1)"
    using assms(1) planemem unfolding grid_ok_def by blast
  have row: "length ?row = 3 \<and> (\<forall>x \<in> set ?row. x = 0 \<or> x = 1)"
  proof -
    have "set ?row \<subseteq> insert v (set (filled bx ! nat i ! nat j))"
      by (rule set_update_subset_insert)
    moreover have "\<forall>x \<in> set (filled bx ! nat i ! nat j). x = 0 \<or> x = 1"
      using rows rowmem by blast
    ultimately have "\<forall>x \<in> set ?row. x = 0 \<or> x = 1" using assms(2) by blast
    then show ?thesis using l by simp
  qed
  have plane: "length ?plane = 3 \<and>
     (\<forall>rw \<in> set ?plane. length rw = 3 \<and> (\<forall>x \<in> set rw. x = 0 \<or> x = 1))"
  proof -
    have "set ?plane \<subseteq> insert ?row (set (filled bx ! nat i))"
      by (rule set_update_subset_insert)
    then have "\<forall>rw \<in> set ?plane. length rw = 3 \<and> (\<forall>x \<in> set rw. x = 0 \<or> x = 1)"
      using rows row by blast
    then show ?thesis using l by simp
  qed
  have "set ((filled bx)[nat i := ?plane]) \<subseteq> insert ?plane (set (filled bx))"
    by (rule set_update_subset_insert)
  moreover have "\<forall>p \<in> set (filled bx). length p = 3 \<and>
       (\<forall>rw \<in> set p. length rw = 3 \<and> (\<forall>x \<in> set rw. x = 0 \<or> x = 1))"
    using assms(1) unfolding grid_ok_def by blast
  ultimately have "\<forall>p \<in> set ((filled bx)[nat i := ?plane]). length p = 3 \<and>
       (\<forall>rw \<in> set p. length rw = 3 \<and> (\<forall>x \<in> set rw. x = 0 \<or> x = 1))"
    using plane by blast
  moreover have "length ((filled bx)[nat i := ?plane]) = 3" using l by simp
  ultimately show ?thesis unfolding grid_ok_def c by simp
qed

definition filled_cells :: "box \<Rightarrow> vec set" where
  "filled_cells bx = set (filter (\<lambda>c. coord_is_filled bx c \<noteq> 0) anchors)"

lemma filled_cells_iff:
  "c \<in> filled_cells bx \<longleftrightarrow> \<not> out_of_bounds c \<and> coord_is_filled bx c \<noteq> 0"
  by (simp add: filled_cells_def anchors_iff del: coord_is_filled.simps out_of_bounds.simps)

lemma filled_cells_set_coord:
  assumes "grid_ok bx" "\<not> out_of_bounds c"
  shows "filled_cells (set_coord bx c 1) = insert c (filled_cells bx)"
proof (rule set_eqI)
  fix c'
  show "c' \<in> filled_cells (set_coord bx c 1) \<longleftrightarrow> c' \<in> insert c (filled_cells bx)"
  proof (cases "out_of_bounds c'")
    case True
    then show ?thesis using assms(2) by (auto simp: filled_cells_iff simp del: coord_is_filled.simps out_of_bounds.simps set_coord.simps)
  next
    case False
    from coord_set_coord [OF assms(1,2) False, of 1] False assms(2) show ?thesis
      by (auto simp: filled_cells_iff simp del: coord_is_filled.simps out_of_bounds.simps set_coord.simps)
  qed
qed

lemma mark_loop_grid:
  "grid_ok bx \<Longrightarrow> \<forall>c \<in> set (map (vadd a) offs). \<not> out_of_bounds c \<Longrightarrow>
   grid_ok (mark_loop bx a offs)
   \<and> filled_cells (mark_loop bx a offs) = filled_cells bx \<union> set (map (vadd a) offs)"
proof (induction offs arbitrary: bx)
  case Nil
  then show ?case by simp
next
  case (Cons off offs)
  from Cons.prems have inb: "\<not> out_of_bounds (vadd a off)"
    and rest: "\<forall>c \<in> set (map (vadd a) offs). \<not> out_of_bounds c"
    by simp_all
  have g: "grid_ok (set_coord bx (vadd a off) 1)"
    using Cons.prems(1) inb by (simp add: grid_ok_set_coord)
  from Cons.IH [OF g rest] filled_cells_set_coord [OF Cons.prems(1) inb]
  show ?case by auto
qed

lemma place_grid:
  assumes "grid_ok bx" "place bx b a = (Inr u, bx')"
  shows "grid_ok bx'"
    and "filled_cells bx' = filled_cells bx \<union> set (cells b a)"
    and "filled_cells bx \<inter> set (cells b a) = {}"
proof -
  from assms(2) have v: "validate_placement bx b a = Inr ()"
    and bx': "bx' = mark_loop bx a (coords b)"
    by (auto simp: place_def split: sum.splits)
  from v have ok: "\<forall>c \<in> set (cells b a). \<not> offending bx c"
    using validate_loop_ok_iff [of bx a "coords b"]
    by (simp add: validate_placement_def cells_def)
  then have inb: "\<forall>c \<in> set (map (vadd a) (coords b)). \<not> out_of_bounds c"
    unfolding offending_def cells_def by blast
  from mark_loop_grid [OF assms(1) inb] show "grid_ok bx'"
    and "filled_cells bx' = filled_cells bx \<union> set (cells b a)"
    by (simp_all add: bx' cells_def)
  from ok show "filled_cells bx \<inter> set (cells b a) = {}"
    unfolding offending_def by (auto simp: filled_cells_iff simp del: coord_is_filled.simps out_of_bounds.simps)
qed

lemma sum_list_bounded:
  fixes f :: "'a \<Rightarrow> int"
  assumes "\<forall>x \<in> set xs. f x \<le> c"
  shows "sum_list (map f xs) \<le> c * int (length xs)"
    and "sum_list (map f xs) = c * int (length xs) \<longleftrightarrow> (\<forall>x \<in> set xs. f x = c)"
proof -
  show le: "sum_list (map f xs) \<le> c * int (length xs)" using assms
    by (induction xs) (auto simp: algebra_simps)
  show "sum_list (map f xs) = c * int (length xs) \<longleftrightarrow> (\<forall>x \<in> set xs. f x = c)" using assms
  proof (induction xs)
    case Nil
    then show ?case by simp
  next
    case (Cons x xs)
    then have b: "f x \<le> c" and r: "\<forall>x \<in> set xs. f x \<le> c" by simp_all
    have le': "sum_list (map f xs) \<le> c * int (length xs)" using r
      by (induction xs) (auto simp: algebra_simps)
    from Cons.IH [OF r] b le' show ?case by (auto simp: algebra_simps)
  qed
qed

lemma grid_ok_queries:
  assumes "grid_ok bx"
  shows "is_filled bx \<longleftrightarrow> num_filled bx = 27"
    and "is_filled bx \<longleftrightarrow> (\<forall>c \<in> set anchors. coord_is_filled bx c \<noteq> 0)"
proof -
  have len: "length (filled bx) = 3" using assms unfolding grid_ok_def by blast
  have planes: "\<forall>p \<in> set (filled bx). length p = 3 \<and>
      (\<forall>rw \<in> set p. length rw = 3 \<and> (\<forall>v \<in> set rw. v = 0 \<or> v = 1))"
    using assms unfolding grid_ok_def by blast
  have row: "sum_list rw \<le> 3 \<and> (sum_list rw = 3 \<longleftrightarrow> list_all (\<lambda>v. v = 1) rw)"
    if "p \<in> set (filled bx)" "rw \<in> set p" for p rw
  proof -
    from planes that have l: "length rw = 3" and v: "\<forall>v \<in> set rw. v = 0 \<or> v = 1" by blast+
    from v have b: "\<forall>v \<in> set rw. id v \<le> (1::int)" by auto
    from sum_list_bounded [OF b] l show ?thesis by (simp add: list_all_iff)
  qed
  have plane: "sum_list (map sum_list p) \<le> 9 \<and>
      (sum_list (map sum_list p) = 9 \<longleftrightarrow> list_all (list_all (\<lambda>v. v = 1)) p)"
    if "p \<in> set (filled bx)" for p
  proof -
    from planes that have l: "length p = 3" by blast
    from row [OF that] have b: "\<forall>rw \<in> set p. sum_list rw \<le> 3" by blast
    from sum_list_bounded [OF b] l row [OF that] show ?thesis by (simp add: list_all_iff)
  qed
  from plane have b: "\<forall>p \<in> set (filled bx). sum_list (map sum_list p) \<le> 9" by blast
  from sum_list_bounded [OF b] len plane
  show "is_filled bx \<longleftrightarrow> num_filled bx = 27"
    by (simp add: is_filled_def num_filled_def list_all_iff)
  show "is_filled bx \<longleftrightarrow> (\<forall>c \<in> set anchors. coord_is_filled bx c \<noteq> 0)"
  proof
    assume f: "is_filled bx"
    show "\<forall>c \<in> set anchors. coord_is_filled bx c \<noteq> 0"
    proof
      fix c assume "c \<in> set anchors"
      then have inb: "\<not> out_of_bounds c" using anchors_iff by blast
      obtain i j k where c: "c = (i, j, k)" by (cases c)
      from inb c have r: "nat i < 3" "nat j < 3" "nat k < 3" by auto
      note l = grid_ok_lengths [OF assms r(1,2)]
      have "filled bx ! nat i \<in> set (filled bx)" using r l by simp
      moreover have "filled bx ! nat i ! nat j \<in> set (filled bx ! nat i)" using r l by simp
      moreover have "filled bx ! nat i ! nat j ! nat k \<in> set (filled bx ! nat i ! nat j)"
        using r l by simp
      ultimately have "filled bx ! nat i ! nat j ! nat k = 1"
        using f unfolding is_filled_def list_all_iff by blast
      then show "coord_is_filled bx c \<noteq> 0" by (simp add: c)
    qed
  next
    assume a: "\<forall>c \<in> set anchors. coord_is_filled bx c \<noteq> 0"
    have "v = 1" if "p \<in> set (filled bx)" "rw \<in> set p" "v \<in> set rw" for p rw v
    proof -
      from planes that have lp: "length p = 3" and lr: "length rw = 3" and v: "v = 0 \<or> v = 1"
        by blast+
      from that(1) len obtain i where i: "i < 3" "filled bx ! i = p"
        by (auto simp: in_set_conv_nth)
      from that(2) lp obtain j where j: "j < 3" "p ! j = rw"
        by (auto simp: in_set_conv_nth)
      from that(3) lr obtain k where k: "k < 3" "rw ! k = v"
        by (auto simp: in_set_conv_nth)
      have "\<not> out_of_bounds (int i, int j, int k)" using i j k by simp
      then have "(int i, int j, int k) \<in> set anchors" using anchors_iff by blast
      with a have "coord_is_filled bx (int i, int j, int k) \<noteq> 0" by blast
      then have "v \<noteq> 0" using i j k by simp
      with v show "v = 1" by simp
    qed
    then show "is_filled bx" unfolding is_filled_def list_all_iff by blast
  qed
qed

text \<open>
  The volumes that a sequence of successful placements produces from the empty volume.
\<close>

inductive placed_volume :: "box \<Rightarrow> bool" where
  empty_volume: "placed_volume Box"
| placed: "placed_volume bx \<Longrightarrow> place bx b a = (Inr (), bx') \<Longrightarrow> placed_volume bx'"

lemma placed_volume_grid_ok: "placed_volume bx \<Longrightarrow> grid_ok bx"
  by (induction rule: placed_volume.induct) (auto simp: grid_ok_Box dest: place_grid(1))

definition b_all :: block where
  "b_all = Block anchors ''B0''"

definition box_full :: box where
  "box_full = snd (place Box b_all (0, 0, 0))"

text \<open>
  C8. On every volume reached from the empty volume by successful placements the three
  queries agree: \<open>is_filled\<close> holds exactly when \<open>num_filled\<close> is 27, and exactly when
  \<open>coord_is_filled\<close> reports every one of the 27 coordinates as filled.
\<close>

theorem box_queries_agree:
  assumes "placed_volume bx"
  shows "(is_filled bx \<longleftrightarrow> num_filled bx = 27)
       \<and> (num_filled bx = 27 \<longleftrightarrow> (\<forall>c \<in> set anchors. coord_is_filled bx c \<noteq> 0))"
  using grid_ok_queries [OF placed_volume_grid_ok [OF assms]] by blast

theorem box_queries_agree_witness:
  "placed_volume box_full
   \<and> (is_filled box_full \<longleftrightarrow> num_filled box_full = 27)
   \<and> (num_filled box_full = 27 \<longleftrightarrow> (\<forall>c \<in> set anchors. coord_is_filled box_full c \<noteq> 0))
   \<and> is_filled box_full
   \<and> placed_volume box_000
   \<and> (is_filled box_000 \<longleftrightarrow> num_filled box_000 = 27)
   \<and> \<not> is_filled box_000"
proof -
  have "place Box b_all (0, 0, 0) = (Inr (), box_full)"
    by code_simp
  then have r1: "placed_volume box_full"
    using placed_volume.intros by blast
  have "place Box (Block [(0, 0, 0)] ''B0'') (0, 0, 0) = (Inr (), box_000)"
    by code_simp
  then have r2: "placed_volume box_000"
    using placed_volume.intros by blast
  have f: "is_filled box_full" "\<not> is_filled box_000"
    by code_simp+
  from box_queries_agree [OF r1] box_queries_agree [OF r2] r1 r2 f
  show ?thesis by blast
qed

section \<open>The search states\<close>

text \<open>
  The absolute cells of a placed block are its offsets added to its origin, as \<open>main\<close>
  and \<open>plot_solution\<close> compute them. \<open>placement_invariant\<close> says that the filled
  cells of the box are the union of the cells of the placed blocks and that the cells
  of two placed blocks never overlap.
\<close>

definition block_cells :: "block \<Rightarrow> vec set" where
  "block_cells b = set (cells b (origin b))"

fun disjoint_blocks :: "block list \<Rightarrow> bool" where
  "disjoint_blocks [] = True"
| "disjoint_blocks (b # bs) =
     ((\<forall>b' \<in> set bs. block_cells b \<inter> block_cells b' = {}) \<and> disjoint_blocks bs)"

definition placement_invariant :: "game \<Rightarrow> bool" where
  "placement_invariant g =
     (filled_cells (box g) = \<Union> (block_cells ` set (placed_blocks g))
      \<and> disjoint_blocks (placed_blocks g))"

definition consistent :: "game \<Rightarrow> bool" where
  "consistent g = (grid_ok (box g) \<and> placement_invariant g)"

lemma disjoint_blocks_snoc:
  "disjoint_blocks (bs @ [b]) \<longleftrightarrow>
     disjoint_blocks bs \<and> (\<forall>b' \<in> set bs. block_cells b' \<inter> block_cells b = {})"
  by (induction bs) auto

lemma filled_cells_Box: "filled_cells Box = {}"
  by code_simp

lemma consistent_GameState: "consistent (GameState block_list)"
  by (simp add: consistent_def placement_invariant_def GameState_def grid_ok_Box filled_cells_Box)

lemma consistent_candidates:
  "consistent g \<Longrightarrow> consistent (g\<lparr>block_candidates := cs\<rparr>)"
  by (simp add: consistent_def placement_invariant_def)

lemma place_copy_consistent:
  assumes "consistent g" "origin pb = a" "place_copy g pb a = Some g'"
  shows "consistent g'"
proof -
  from assms(3) obtain u bx' where p: "place (box g) pb a = (Inr u, bx')"
    and g': "g' = g\<lparr>box := bx', placed_blocks := placed_blocks g @ [pb]\<rparr>"
    by (auto simp: place_copy_def split: prod.splits sum.splits)
  from assms(1) have gr: "grid_ok (box g)" by (simp add: consistent_def)
  note pg = place_grid [OF gr p]
  have bc: "block_cells pb = set (cells pb a)" by (simp add: block_cells_def assms(2))
  from assms(1) have inv: "filled_cells (box g) = \<Union> (block_cells ` set (placed_blocks g))"
    and dis: "disjoint_blocks (placed_blocks g)"
    by (simp_all add: consistent_def placement_invariant_def)
  have "\<forall>b' \<in> set (placed_blocks g). block_cells b' \<inter> block_cells pb = {}"
    using pg(3) inv bc by blast
  with dis have "disjoint_blocks (placed_blocks g @ [pb])"
    by (simp add: disjoint_blocks_snoc)
  moreover have "filled_cells bx' = \<Union> (block_cells ` set (placed_blocks g @ [pb]))"
    using pg(2) inv bc by auto
  ultimately show ?thesis using pg(1) by (simp add: g' consistent_def placement_invariant_def)
qed

lemma gen_next_origin:
  "gen_next gen b = (y, gen', b') \<Longrightarrow> origin b' = origin b"
  by (induction gen b rule: gen_next.induct) (auto simp: roll_def turn_def)

lemma solve_consistent:
  "consistent g \<Longrightarrow> consistent (fst (solve g)) \<and> consistent (snd (solve g))"
  "consistent g \<Longrightarrow> anchor_loop g pb as = Some r \<Longrightarrow> consistent r"
  "consistent g \<Longrightarrow> origin pb = a \<Longrightarrow> fst (rotation_loop g pb a gen) = Some r' \<Longrightarrow> consistent r'"
proof (induction g and g pb as and g pb a gen arbitrary: and r and r'
       rule: solve_anchor_loop_rotation_loop.induct)
  case (1 g)
  show ?case
  proof (cases "\<not> is_solved g \<and> 0 < length (block_candidates g)")
    case True
    let ?g' = "g\<lparr>block_candidates := butlast (block_candidates g)\<rparr>"
    have c': "consistent ?g'" using "1.prems" by (rule consistent_candidates)
    show ?thesis
    proof (cases "anchor_loop ?g' (last (block_candidates g)) anchors")
      case None
      with True c' show ?thesis by (simp add: solve.simps Let_def)
    next
      case (Some r)
      from "1.IH" [OF True refl refl c' Some] True c' Some show ?thesis
        by (simp add: solve.simps Let_def)
    qed
  next
    case False
    then have "solve g = (g, g)" by (auto simp: solve.simps)
    with "1.prems" show ?thesis by simp
  qed
next
  case (2 g placement_block)
  then show ?case by simp
next
  case (3 g placement_block a rest)
  show ?case
  proof (cases "coord_is_filled (box g) a \<noteq> 0")
    case True
    with "3.prems" have "anchor_loop g placement_block rest = Some r" by simp
    from "3.IH"(1) [OF True "3.prems"(1) this] show ?thesis .
  next
    case False
    obtain x y where rl: "rotation_loop g (set_origin placement_block a) a rotations = (x, y)"
      by (cases "rotation_loop g (set_origin placement_block a) a rotations")
    show ?thesis
    proof (cases x)
      case None
      with "3.prems" False rl have "anchor_loop g y rest = Some r" by simp
      from "3.IH"(3) [OF False rl [symmetric] None "3.prems"(1) this] show ?thesis .
    next
      case (Some gc)
      with "3.prems" False rl have "gc = r" by simp
      with Some rl have "fst (rotation_loop g (set_origin placement_block a) a rotations) = Some r"
        by simp
      from "3.IH"(2) [OF False "3.prems"(1) _ this] show ?thesis
        by (simp add: set_origin_def)
    qed
  qed
next
  case (4 g placement_block a gen)
  obtain x gen' pb' where gn: "gen_next gen placement_block = (x, gen', pb')"
    by (cases "gen_next gen placement_block")
  from gen_next_origin [OF gn] "4.prems"(2) have o: "origin pb' = a" by simp
  show ?case
  proof (cases x)
    case None
    with "4.prems"(3) gn show ?thesis by (simp add: rotation_loop.simps Let_def)
  next
    case (Some block_rotation)
    show ?thesis
    proof (cases "place_copy g pb' a")
      case None
      with "4.prems"(3) gn Some have "fst (rotation_loop g pb' a gen') = Some r'"
        by (simp add: rotation_loop.simps Let_def)
      from "4.IH"(1) [OF gn [symmetric] Some refl None "4.prems"(1) o this] show ?thesis .
    next
      case (Some gc)
      note pc = this
      have cgc: "consistent gc" using place_copy_consistent [OF "4.prems"(1) o pc] .
      from "4.IH"(2) [OF gn [symmetric] \<open>x = Some block_rotation\<close> refl pc cgc]
      have cs: "consistent (snd (solve gc))" by simp
      show ?thesis
      proof (cases "is_solved (snd (solve gc))")
        case True
        with "4.prems"(3) gn \<open>x = Some block_rotation\<close> pc have "r' = snd (solve gc)"
          by (simp add: rotation_loop.simps Let_def)
        with cs show ?thesis by simp
      next
        case False
        with "4.prems"(3) gn \<open>x = Some block_rotation\<close> pc
        have "fst (rotation_loop g pb' a gen') = Some r'"
          by (simp add: rotation_loop.simps Let_def)
        from "4.IH"(3) [OF gn [symmetric] \<open>x = Some block_rotation\<close> refl pc refl False
            "4.prems"(1) o this]
        show ?thesis .
      qed
    qed
  qed
qed

text \<open>
  The search states: the state \<open>GameState\<close> builds from blocks that have offsets, the
  state a call of \<open>solve\<close> leaves in its argument (the last candidate popped), a copy
  of a state on which \<open>place\<close> has put a block whose origin is the anchor, and the state
  \<open>solve\<close> returns. The third rule admits any block with offsets and any anchor, so it
  covers every copy that the loops of \<open>solve\<close> make.
\<close>

inductive reachable :: "game \<Rightarrow> bool" where
  initial: "[] \<notin> set block_list \<Longrightarrow> reachable (GameState block_list)"
| popped: "reachable g \<Longrightarrow> reachable (fst (solve g))"
| trial: "reachable g \<Longrightarrow> has_offsets pb \<Longrightarrow>
          place_copy g (set_origin pb a) a = Some g' \<Longrightarrow> reachable g'"
| returned: "reachable g \<Longrightarrow> reachable (snd (solve g))"

lemma reachable_consistent: "reachable g \<Longrightarrow> consistent g"
proof (induction rule: reachable.induct)
  case (initial block_list)
  show ?case by (rule consistent_GameState)
next
  case (popped g)
  then show ?case using solve_consistent(1) by blast
next
  case (trial g pb a g')
  have "origin (set_origin pb a) = a" by (simp add: set_origin_def)
  from place_copy_consistent [OF trial.IH this trial.hyps(3)] show ?case .
next
  case (returned g)
  then show ?case using solve_consistent(1) by blast
qed

definition g_two :: game where
  "g_two = GameState [[(0, 0, 0)], butlast anchors]"

text \<open>
  C7. In every search state reached from an initial state by the operations of \<open>solve\<close>,
  the set of the filled cells of the box is the union of the absolute cells of the placed
  blocks, and the cell sets of the placed blocks are pairwise disjoint.
\<close>

theorem placed_blocks_tile_filled_cells:
  assumes "reachable g"
  shows "filled_cells (box g) = \<Union> (block_cells ` set (placed_blocks g))
       \<and> disjoint_blocks (placed_blocks g)"
  using reachable_consistent [OF assms]
  by (simp add: consistent_def placement_invariant_def)

theorem placed_blocks_tile_filled_cells_witness:
  "reachable (snd (solve g_two))
   \<and> filled_cells (box (snd (solve g_two)))
       = \<Union> (block_cells ` set (placed_blocks (snd (solve g_two))))
   \<and> disjoint_blocks (placed_blocks (snd (solve g_two)))
   \<and> length (placed_blocks (snd (solve g_two))) = 2"
proof -
  have "[] \<notin> set [[(0, 0, 0)], butlast anchors]"
    by code_simp
  then have r: "reachable (snd (solve g_two))"
    unfolding g_two_def by (intro reachable.returned reachable.initial)
  have l: "length (placed_blocks (snd (solve g_two))) = 2"
    by code_simp
  from placed_blocks_tile_filled_cells [OF r] r l show ?thesis by blast
qed

section \<open>What solve returns\<close>

lemma solve_base: "is_solved g \<or> block_candidates g = [] \<Longrightarrow> solve g = (g, g)"
  by (auto simp: solve.simps)

lemma solve_step:
  "\<not> is_solved g \<Longrightarrow> block_candidates g \<noteq> [] \<Longrightarrow>
   solve g =
     (g\<lparr>block_candidates := butlast (block_candidates g)\<rparr>,
      case anchor_loop (g\<lparr>block_candidates := butlast (block_candidates g)\<rparr>)
             (last (block_candidates g)) anchors of
        Some game_copy \<Rightarrow> game_copy
      | None \<Rightarrow> g\<lparr>block_candidates := butlast (block_candidates g)\<rparr>)"
  by (simp add: solve.simps Let_def)

lemma rotation_loop_Nil: "rotation_loop g pb a [] = (None, pb)"
  by (simp add: rotation_loop.simps)

lemma rotation_loop_Roll: "rotation_loop g pb a (Roll # gen) = rotation_loop g (roll pb) a gen"
  by (subst rotation_loop.simps, subst (2) rotation_loop.simps) simp

lemma rotation_loop_Turn: "rotation_loop g pb a (Turn # gen) = rotation_loop g (turn pb) a gen"
  by (subst rotation_loop.simps, subst (2) rotation_loop.simps) simp

lemma rotation_loop_Yield:
  "rotation_loop g pb a (Yield # gen) =
     (case place_copy g pb a of
        None \<Rightarrow> rotation_loop g pb a gen
      | Some game_copy \<Rightarrow>
          if is_solved (snd (solve game_copy)) then (Some (snd (solve game_copy)), pb)
          else rotation_loop g pb a gen)"
  by (subst rotation_loop.simps) (simp add: Let_def split: option.splits)

text \<open>A game that the loops return from inside is solved.\<close>

lemma loops_return_solved:
  "True"
  "anchor_loop g pb as = Some r \<Longrightarrow> is_solved r"
  "fst (rotation_loop g pb a gen) = Some r' \<Longrightarrow> is_solved r'"
proof (induction g and g pb as and g pb a gen arbitrary: and r and r'
       rule: solve_anchor_loop_rotation_loop.induct)
  case (1 g)
  show ?case by simp
next
  case (2 g placement_block)
  then show ?case by simp
next
  case (3 g placement_block a rest)
  show ?case
  proof (cases "coord_is_filled (box g) a \<noteq> 0")
    case True
    with "3.prems" have "anchor_loop g placement_block rest = Some r" by simp
    from "3.IH"(1) [OF True this] show ?thesis .
  next
    case False
    obtain x y where rl: "rotation_loop g (set_origin placement_block a) a rotations = (x, y)"
      by (cases "rotation_loop g (set_origin placement_block a) a rotations")
    show ?thesis
    proof (cases x)
      case None
      with "3.prems" False rl have "anchor_loop g y rest = Some r" by simp
      from "3.IH"(3) [OF False rl [symmetric] None this] show ?thesis .
    next
      case (Some gc)
      with "3.prems" False rl have "gc = r" by simp
      with Some rl have "fst (rotation_loop g (set_origin placement_block a) a rotations) = Some r"
        by simp
      from "3.IH"(2) [OF False this] show ?thesis .
    qed
  qed
next
  case (4 g placement_block a gen)
  obtain x gen' pb' where gn: "gen_next gen placement_block = (x, gen', pb')"
    by (cases "gen_next gen placement_block")
  show ?case
  proof (cases x)
    case None
    with "4.prems" gn show ?thesis by (simp add: rotation_loop.simps)
  next
    case (Some block_rotation)
    note x = this
    show ?thesis
    proof (cases "place_copy g pb' a")
      case None
      with "4.prems" gn x have "fst (rotation_loop g pb' a gen') = Some r'"
        by (simp add: rotation_loop.simps)
      from "4.IH"(1) [OF gn [symmetric] x refl None this] show ?thesis .
    next
      case (Some gc)
      note pc = this
      show ?thesis
      proof (cases "is_solved (snd (solve gc))")
        case True
        with "4.prems" gn x pc have "r' = snd (solve gc)"
          by (simp add: rotation_loop.simps Let_def)
        with True show ?thesis by simp
      next
        case False
        with "4.prems" gn x pc have "fst (rotation_loop g pb' a gen') = Some r'"
          by (simp add: rotation_loop.simps Let_def)
        from "4.IH"(3) [OF gn [symmetric] x refl pc refl False this] show ?thesis .
      qed
    qed
  qed
qed

definition g_single :: game where
  "g_single = GameState [[(0, 0, 0)]]"

text \<open>
  C9. A call of \<open>solve\<close> on a game that is not solved and has candidates removes the
  last candidate from the candidate list of the game it was given. The game it returns
  is either solved or that very game: so an unsolved result has the box and the placed
  blocks of the input, and the input's candidates without the last one.
\<close>

theorem solve_pops_last_candidate:
  assumes "\<not> is_solved g" "block_candidates g \<noteq> []"
    and "list_all has_offsets (block_candidates g)"
  shows "fst (solve g) = g\<lparr>block_candidates := butlast (block_candidates g)\<rparr>
       \<and> (is_solved (snd (solve g)) \<or> snd (solve g) = fst (solve g))
       \<and> (\<not> is_solved (snd (solve g)) \<longrightarrow>
            box (snd (solve g)) = box g
            \<and> placed_blocks (snd (solve g)) = placed_blocks g
            \<and> block_candidates (snd (solve g)) = butlast (block_candidates g))"
proof -
  let ?g' = "g\<lparr>block_candidates := butlast (block_candidates g)\<rparr>"
  note st = solve_step [OF assms(1,2)]
  show ?thesis
  proof (cases "anchor_loop ?g' (last (block_candidates g)) anchors")
    case None
    then show ?thesis by (simp add: st)
  next
    case (Some r)
    from loops_return_solved(2) [OF Some] Some show ?thesis by (simp add: st)
  qed
qed

theorem solve_pops_last_candidate_witness:
  "\<not> is_solved g_single \<and> block_candidates g_single \<noteq> []
   \<and> list_all has_offsets (block_candidates g_single)
   \<and> fst (solve g_single) = g_single\<lparr>block_candidates := butlast (block_candidates g_single)\<rparr>
   \<and> \<not> is_solved (snd (solve g_single))
   \<and> block_candidates (snd (solve g_single)) = butlast (block_candidates g_single)"
proof -
  have h: "\<not> is_solved g_single" "block_candidates g_single \<noteq> []"
    by code_simp+
  have w: "list_all has_offsets (block_candidates g_single)"
    by code_simp
  have u: "\<not> is_solved (snd (solve g_single))"
    by code_simp
  from solve_pops_last_candidate [OF h w] h w u show ?thesis by blast
qed

lemma rotation_loop_none:
  assumes "\<forall>N \<in> set (fst (cumulative gen M)).
             \<forall>t. place_copy g (rotated N b) a = Some t \<longrightarrow> \<not> is_solved (snd (solve t))"
  shows "rotation_loop g (rotated M b) a gen = (None, rotated (snd (cumulative gen M)) b)"
  using assms
proof (induction gen M rule: cumulative.induct)
  case (1 M)
  show ?case by (simp add: rotation_loop_Nil)
next
  case (2 gen M)
  then show ?case by (simp add: rotation_loop_Roll roll_rotated)
next
  case (3 gen M)
  then show ?case by (simp add: rotation_loop_Turn turn_rotated)
next
  case (4 gen M)
  obtain Ms F where cu: "cumulative gen M = (Ms, F)" by (cases "cumulative gen M")
  from "4.prems" cu have here: "\<forall>t. place_copy g (rotated M b) a = Some t \<longrightarrow> \<not> is_solved (snd (solve t))"
    and rest: "\<forall>N \<in> set (fst (cumulative gen M)).
             \<forall>t. place_copy g (rotated N b) a = Some t \<longrightarrow> \<not> is_solved (snd (solve t))"
    by simp_all
  from "4.IH" [OF rest] here cu show ?case
    by (simp add: rotation_loop_Yield split: option.splits)
qed

lemma anchor_loop_none:
  assumes "\<forall>a \<in> set as. \<forall>M. coord_is_filled (box g) a = 0 \<and> proper_rotation M \<longrightarrow>
             (\<forall>t. place_copy g (rotated M (set_origin pb a)) a = Some t \<longrightarrow>
                  \<not> is_solved (snd (solve t)))"
  shows "anchor_loop g pb as = None"
  using assms
proof (induction as arbitrary: pb)
  case Nil
  show ?case by simp
next
  case (Cons a as)
  show ?case
  proof (cases "coord_is_filled (box g) a \<noteq> 0")
    case True
    have "\<forall>a' \<in> set as. \<forall>M. coord_is_filled (box g) a' = 0 \<and> proper_rotation M \<longrightarrow>
             (\<forall>t. place_copy g (rotated M (set_origin pb a')) a' = Some t \<longrightarrow>
                  \<not> is_solved (snd (solve t)))"
      using Cons.prems by (meson list.set_intros(2))
    from Cons.IH [OF this] True show ?thesis by simp
  next
    case False
    have here: "\<forall>M. coord_is_filled (box g) a = 0 \<and> proper_rotation M \<longrightarrow>
             (\<forall>t. place_copy g (rotated M (set_origin pb a)) a = Some t \<longrightarrow>
                  \<not> is_solved (snd (solve t)))"
      using Cons.prems by (meson list.set_intros(1))
    have "\<forall>N \<in> set (fst (cumulative rotations I3)).
             \<forall>t. place_copy g (rotated N (set_origin pb a)) a = Some t \<longrightarrow>
                 \<not> is_solved (snd (solve t))"
      unfolding cumulative_rotations fst_conv set_mats24 using here False by blast
    from rotation_loop_none [OF this]
    have rl: "rotation_loop g (set_origin pb a) a rotations = (None, set_origin pb a)"
      by (simp add: rotated_I3 cumulative_rotations)
    have so: "set_origin (set_origin pb a) a' = set_origin pb a'" for a'
      by (simp add: set_origin_def)
    have "\<forall>a' \<in> set as. \<forall>M. coord_is_filled (box g) a' = 0 \<and> proper_rotation M \<longrightarrow>
             (\<forall>t. place_copy g (rotated M (set_origin pb a')) a' = Some t \<longrightarrow>
                  \<not> is_solved (snd (solve t)))"
      using Cons.prems by (meson list.set_intros(2))
    then have "anchor_loop g (set_origin pb a) as = None"
      by (intro Cons.IH) (simp only: so)
    with False rl show ?thesis by simp
  qed
qed

text \<open>
  C1. When the game is not solved and has candidates, and no rotation of the last
  candidate at any free anchor gives a copy from which \<open>solve\<close> returns a solved game,
  \<open>solve\<close> returns the game it was given with the box and the placed blocks as they
  were and with the last candidate removed from the candidates.
\<close>

theorem solve_without_solution:
  assumes "\<not> is_solved g" "block_candidates g \<noteq> []"
    and "list_all has_offsets (block_candidates g)"
    and "\<forall>a \<in> set anchors. \<forall>M. coord_is_filled (box g) a = 0 \<and> proper_rotation M \<longrightarrow>
           (\<forall>t. place_copy (g\<lparr>block_candidates := butlast (block_candidates g)\<rparr>)
                   (rotated M (set_origin (last (block_candidates g)) a)) a = Some t \<longrightarrow>
                \<not> is_solved (snd (solve t)))"
  shows "snd (solve g) = g\<lparr>block_candidates := butlast (block_candidates g)\<rparr>"
proof -
  let ?g' = "g\<lparr>block_candidates := butlast (block_candidates g)\<rparr>"
  have "anchor_loop ?g' (last (block_candidates g)) anchors = None"
  proof (rule anchor_loop_none)
    have "box ?g' = box g" by simp
    then show "\<forall>a \<in> set anchors. \<forall>M. coord_is_filled (box ?g') a = 0 \<and> proper_rotation M \<longrightarrow>
           (\<forall>t. place_copy ?g' (rotated M (set_origin (last (block_candidates g)) a)) a = Some t \<longrightarrow>
                \<not> is_solved (snd (solve t)))"
      using assms(4) by (simp only:)
  qed
  then show ?thesis by (simp add: solve_step [OF assms(1,2)])
qed

theorem solve_without_solution_witness:
  "\<not> is_solved g_single \<and> block_candidates g_single \<noteq> []
   \<and> list_all has_offsets (block_candidates g_single)
   \<and> snd (solve g_single) = g_single\<lparr>block_candidates := butlast (block_candidates g_single)\<rparr>"
proof -
  have h: "\<not> is_solved g_single" "block_candidates g_single \<noteq> []"
    by code_simp+
  have c: "\<forall>a \<in> set anchors. \<forall>M \<in> set mats24.
      (case place_copy (g_single\<lparr>block_candidates := butlast (block_candidates g_single)\<rparr>)
              (rotated M (set_origin (last (block_candidates g_single)) a)) a of
         None \<Rightarrow> True
       | Some t \<Rightarrow> \<not> is_solved (snd (solve t)))"
    by code_simp
  have "\<forall>a \<in> set anchors. \<forall>M. coord_is_filled (box g_single) a = 0 \<and> proper_rotation M \<longrightarrow>
           (\<forall>t. place_copy (g_single\<lparr>block_candidates := butlast (block_candidates g_single)\<rparr>)
                   (rotated M (set_origin (last (block_candidates g_single)) a)) a = Some t \<longrightarrow>
                \<not> is_solved (snd (solve t)))"
  proof (intro ballI allI impI)
    fix a M t
    assume a: "a \<in> set anchors" and "coord_is_filled (box g_single) a = 0 \<and> proper_rotation M"
      and p: "place_copy (g_single\<lparr>block_candidates := butlast (block_candidates g_single)\<rparr>)
                   (rotated M (set_origin (last (block_candidates g_single)) a)) a = Some t"
    then have "M \<in> set mats24" using proper_in_mats24 by blast
    with c a p show "\<not> is_solved (snd (solve t))" by force
  qed
  moreover have w: "list_all has_offsets (block_candidates g_single)"
    by code_simp
  ultimately show ?thesis using solve_without_solution [OF h] h by blast
qed

text \<open>
  On the game with the single candidate of one cell no placement leads to a solved game,
  and the game returned has lost the candidate: it is not the game as it was before the
  candidate was tried.
\<close>

theorem solve_returns_state_without_popped_piece:
  "\<not> is_solved g_single \<and> block_candidates g_single \<noteq> []
   \<and> \<not> is_solved (snd (solve g_single))
   \<and> block_candidates (snd (solve g_single)) = []
   \<and> snd (solve g_single) \<noteq> g_single"
  by code_simp

section \<open>Occupied anchors\<close>

lemma matvec_zero: "matvec M (0, 0, 0) = (0, 0, 0)"
  by (cases M) (auto simp: split_paired_all)

lemma vadd_zero: "vadd a (0, 0, 0) = a"
  by (cases a) simp

lemma zero_in_matmul: "(0, 0, 0) \<in> set cs \<Longrightarrow> (0, 0, 0) \<in> set (matmul M cs)"
  using matvec_zero [of M] by (force simp: matmul_def)

lemma validate_loop_occupied_anchor:
  assumes "(0, 0, 0) \<in> set cs" "a \<in> set anchors" "coord_is_filled bx a \<noteq> 0"
  shows "fst (validate_loop bx a cs) \<noteq> Inr ()"
proof -
  from assms(1) have "a \<in> set (map (vadd a) cs)"
    using vadd_zero [of a] by force
  moreover have "offending bx a" using assms(3) by (simp add: offending_def)
  ultimately show ?thesis using validate_loop_ok_iff [of bx a cs] by blast
qed

lemma place_copy_occupied_anchor:
  assumes "(0, 0, 0) \<in> set (coords pb)" "a \<in> set anchors" "coord_is_filled (box g) a \<noteq> 0"
  shows "place_copy g pb a = None"
  using validate_loop_occupied_anchor [OF assms]
  by (auto simp: place_copy_def place_def validate_placement_def split: sum.splits)

definition g_000 :: game where
  "g_000 = \<lparr>block_candidates = [], placed_blocks = [set_origin (Block [(0, 0, 0)] ''B1'') (0, 0, 0)],
            box = box_000\<rparr>"

text \<open>
  C10. The rotation matrices fix the zero vector. So if a block has the offset
  \<open>(0, 0, 0)\<close>, each of the 24 offset sets that the generator yields has it too, and at
  an anchor of the box that is filled the validation of each of them fails; \<open>place\<close>
  fails for every rotation of the block there. Had \<open>solve\<close> not skipped the filled
  anchor, the loop over the rotations would have returned nothing and left the block as
  it was: skipping discards no placement.
\<close>

theorem occupied_anchor_admits_no_rotation:
  assumes "(0, 0, 0) \<in> set (coords b)" "a \<in> set anchors" "coord_is_filled (box g) a \<noteq> 0"
  shows "matvec Rx (0, 0, 0) = (0, 0, 0) \<and> matvec Ry (0, 0, 0) = (0, 0, 0)
       \<and> matvec Rz (0, 0, 0) = (0, 0, 0)
       \<and> (\<forall>cs \<in> set (fst (drain rotations b)).
            (0, 0, 0) \<in> set cs \<and> fst (validate_loop (box g) a cs) \<noteq> Inr ())
       \<and> (\<forall>M. proper_rotation M \<longrightarrow> place_copy g (rotated M (set_origin b a)) a = None)
       \<and> rotation_loop g (set_origin b a) a rotations = (None, set_origin b a)"
proof (intro conjI)
  show "matvec Rx (0, 0, 0) = (0, 0, 0)" "matvec Ry (0, 0, 0) = (0, 0, 0)"
    "matvec Rz (0, 0, 0) = (0, 0, 0)"
    by (rule matvec_zero)+
next
  show "\<forall>cs \<in> set (fst (drain rotations b)).
          (0, 0, 0) \<in> set cs \<and> fst (validate_loop (box g) a cs) \<noteq> Inr ()"
  proof
    fix cs assume "cs \<in> set (fst (drain rotations b))"
    then obtain N where "cs = matmul N (coords b)"
      by (auto simp: drain_rotations)
    with assms(1) have z: "(0, 0, 0) \<in> set cs" by (simp add: zero_in_matmul)
    from validate_loop_occupied_anchor [OF z assms(2,3)] z
    show "(0, 0, 0) \<in> set cs \<and> fst (validate_loop (box g) a cs) \<noteq> Inr ()" by simp
  qed
next
  have none: "place_copy g (rotated M (set_origin b a)) a = None" for M
  proof (rule place_copy_occupied_anchor [OF _ assms(2,3)])
    show "(0, 0, 0) \<in> set (coords (rotated M (set_origin b a)))"
      using assms(1) by (simp add: rotated_def set_origin_def zero_in_matmul)
  qed
  then show "\<forall>M. proper_rotation M \<longrightarrow> place_copy g (rotated M (set_origin b a)) a = None"
    by blast
  have "\<forall>N \<in> set (fst (cumulative rotations I3)).
          \<forall>t. place_copy g (rotated N (set_origin b a)) a = Some t \<longrightarrow> \<not> is_solved (snd (solve t))"
    using none by simp
  from rotation_loop_none [OF this]
  show "rotation_loop g (set_origin b a) a rotations = (None, set_origin b a)"
    by (simp add: rotated_I3 cumulative_rotations)
qed

theorem occupied_anchor_admits_no_rotation_witness:
  "(0, 0, 0) \<in> set (coords b_line2) \<and> (0, 0, 0) \<in> set anchors
   \<and> coord_is_filled (box g_000) (0, 0, 0) \<noteq> 0
   \<and> place_copy g_000 (rotated Rz (set_origin b_line2 (0, 0, 0))) (0, 0, 0) = None
   \<and> rotation_loop g_000 (set_origin b_line2 (0, 0, 0)) (0, 0, 0) rotations
       = (None, set_origin b_line2 (0, 0, 0))"
proof -
  have h: "(0, 0, 0) \<in> set (coords b_line2)" "(0, 0, 0) \<in> set anchors"
    "coord_is_filled (box g_000) (0, 0, 0) \<noteq> 0"
    by code_simp+
  have p: "proper_rotation Rz"
    by (simp add: proper_rotation_def orthogonal_def Rz_def I3_def)
  from occupied_anchor_admits_no_rotation [OF h] h p show ?thesis by blast
qed

end
